theory Spec2Isabelle
  imports Main "HOL-Library.Word" "HOL-Library.Multiset"
begin

section \<open>Data model\<close>

text \<open>
  \<^verbatim>\<open>LogDetail\<close> and \<^verbatim>\<open>LogRecord\<close> are the two typedefs at the top of
  \<^verbatim>\<open>src/VersionLog.js\<close>. Timestamps are whole seconds
  (\<^verbatim>\<open>Math.floor(Date.now() / 1000)\<close> in the plugin's handler), modelled as \<open>int\<close>.
  The \<^verbatim>\<open>record\<close> field of the class \<^verbatim>\<open>VersionLog\<close> is a list of snapshots,
  index 0 being the most recent one.
\<close>

record LogDetail =
  filename :: string
  hash :: string

record LogRecord =
  timestamp :: int
  upload :: "LogDetail list"
  omit :: "LogDetail list"

text \<open>The value \<^verbatim>\<open>{versionIndex, timestamp}\<close> that \<^verbatim>\<open>findVersion\<close> returns.\<close>

record VersionData =
  versionIndex :: nat
  vd_timestamp :: int

section \<open>VersionLog.getFirstExpireVersionIndex\<close>

text \<open>
  The body of the \<^verbatim>\<open>for\<close> loop: an optional argument is a number exactly when it is
  \<open>Some\<close> (\<^verbatim>\<open>typeof x === 'number'\<close>). The three disjuncts are the ones of the
  source's \<^verbatim>\<open>if\<close>, in its order.
\<close>

definition expireTest :: "int option \<Rightarrow> int option \<Rightarrow> nat \<Rightarrow> int \<Rightarrow> bool" where
  "expireTest maxiumVersion deadline i ts =
     (let deadlineDefined = (deadline \<noteq> None);
          versionDefined = (maxiumVersion \<noteq> None);
          timeExpire = (case deadline of None \<Rightarrow> False | Some d \<Rightarrow> ts < d);
          versionExpire = (case maxiumVersion of None \<Rightarrow> False | Some m \<Rightarrow> int i > m)
      in (timeExpire \<and> versionExpire) \<or>
         (\<not> deadlineDefined \<and> versionExpire) \<or>
         (\<not> versionDefined \<and> timeExpire))"

function getFirstExpireVersionIndex_loop ::
  "LogRecord list \<Rightarrow> int option \<Rightarrow> int option \<Rightarrow> nat \<Rightarrow> nat" where
  "getFirstExpireVersionIndex_loop log maxiumVersion deadline i =
     (if i < length log then
        (if expireTest maxiumVersion deadline i (timestamp (log ! i)) then i
         else getFirstExpireVersionIndex_loop log maxiumVersion deadline (Suc i))
      else i)"
  by pat_completeness auto
termination
  by (relation "measure (\<lambda>(log, maxiumVersion, deadline, i). length log - i)") auto

declare getFirstExpireVersionIndex_loop.simps [simp del]

definition getFirstExpireVersionIndex ::
  "LogRecord list \<Rightarrow> int option \<Rightarrow> int option \<Rightarrow> nat" where
  "getFirstExpireVersionIndex log maxiumVersion deadline =
     getFirstExpireVersionIndex_loop log maxiumVersion deadline 0"

text \<open>
  The expiry rule in the specification's words: with both bounds a snapshot is expired
  when it is older than the deadline and beyond the kept versions, with one bound that
  bound decides alone, with none nothing is expired.
\<close>

definition expired_spec :: "int option \<Rightarrow> int option \<Rightarrow> nat \<Rightarrow> int \<Rightarrow> bool" where
  "expired_spec maxVersions deadline i ts =
     (case (maxVersions, deadline) of
        (Some m, Some d) \<Rightarrow> ts < d \<and> m < int i
      | (Some m, None) \<Rightarrow> m < int i
      | (None, Some d) \<Rightarrow> ts < d
      | (None, None) \<Rightarrow> False)"


section \<open>VersionLog.init, append, getLastVersion\<close>

text \<open>
  \<^verbatim>\<open>Array.prototype.sort\<close> with a comparator, as a stable insertion sort (the
  language standard requires stability): an element goes in front of the first element
  it does not compare greater than.
\<close>

fun Array_sort_insert :: "('a \<Rightarrow> 'a \<Rightarrow> int) \<Rightarrow> 'a \<Rightarrow> 'a list \<Rightarrow> 'a list" where
  "Array_sort_insert cmp x [] = [x]"
| "Array_sort_insert cmp x (y # ys) =
     (if cmp x y \<le> 0 then x # y # ys else y # Array_sort_insert cmp x ys)"

definition Array_sort :: "('a \<Rightarrow> 'a \<Rightarrow> int) \<Rightarrow> 'a list \<Rightarrow> 'a list" where
  "Array_sort cmp xs = foldr (Array_sort_insert cmp) xs []"

text \<open>
  \<^verbatim>\<open>Array.prototype.slice(start, end)\<close>: a missing bound is the start or the end of
  the array, a negative one counts from the end, and both are clamped to the array.
\<close>

definition Array_slice :: "'a list \<Rightarrow> int option \<Rightarrow> int option \<Rightarrow> 'a list" where
  "Array_slice xs startIndex endIndex =
     (let len = int (length xs);
          relativeStart = (case startIndex of None \<Rightarrow> 0 | Some s \<Rightarrow> s);
          k = (if relativeStart < 0 then max (len + relativeStart) 0 else min relativeStart len);
          relativeEnd = (case endIndex of None \<Rightarrow> len | Some e \<Rightarrow> e);
          final = (if relativeEnd < 0 then max (len + relativeEnd) 0 else min relativeEnd len)
      in take (nat (final - k)) (drop (nat k) xs))"

text \<open>The comparator of \<^verbatim>\<open>init\<close>: \<^verbatim>\<open>(a, b) => b.timestamp - a.timestamp\<close>.\<close>

definition init_compare :: "LogRecord \<Rightarrow> LogRecord \<Rightarrow> int" where
  "init_compare a b = timestamp b - timestamp a"

definition init :: "LogRecord list \<Rightarrow> LogRecord list" where
  "init content = Array_sort init_compare (Array_slice content None None)"

text \<open>\<^verbatim>\<open>append\<close> is \<^verbatim>\<open>this.record.unshift(log)\<close>.\<close>

definition append_record :: "LogRecord list \<Rightarrow> LogRecord \<Rightarrow> LogRecord list" where
  "append_record log entry = entry # log"

text \<open>\<^verbatim>\<open>getLastVersion\<close> is \<^verbatim>\<open>this.record[0]\<close>, which is \<^verbatim>\<open>undefined\<close> on an empty log.\<close>

definition getLastVersion :: "LogRecord list \<Rightarrow> LogRecord option" where
  "getLastVersion log = (case log of [] \<Rightarrow> None | r # _ \<Rightarrow> Some r)"

definition getFreshVersions ::
  "LogRecord list \<Rightarrow> int option \<Rightarrow> int option \<Rightarrow> LogRecord list" where
  "getFreshVersions log maxiumVersion deadline =
     (let expireIndex = getFirstExpireVersionIndex log maxiumVersion deadline
      in Array_slice log (Some 0) (Some (int expireIndex)))"

definition getVersions :: "LogRecord list \<Rightarrow> int option \<Rightarrow> int option \<Rightarrow> LogRecord list" where
  "getVersions log startIndex endIndex = Array_slice log startIndex endIndex"

section \<open>VersionLog.findVersion\<close>

text \<open>
  \<^verbatim>\<open>!hash\<close> holds for a missing argument and for the empty string, the one falsy
  string of the language.
\<close>

definition hash_falsy :: "string option \<Rightarrow> bool" where
  "hash_falsy h = (case h of None \<Rightarrow> True | Some s \<Rightarrow> s = [])"

text \<open>
  The inner loop over \<^verbatim>\<open>files = [...upload, ...omit]\<close>: \<open>True\<close> when it reaches the
  \<^verbatim>\<open>return\<close>.
\<close>

fun findVersion_files :: "string \<Rightarrow> string option \<Rightarrow> LogDetail list \<Rightarrow> bool" where
  "findVersion_files fname h [] = False"
| "findVersion_files fname h (targetFile # files) =
     (if (hash_falsy h \<or> h = Some (hash targetFile)) \<and> fname = filename targetFile then True
      else findVersion_files fname h files)"

function findVersion_loop ::
  "LogRecord list \<Rightarrow> string \<Rightarrow> string option \<Rightarrow> nat \<Rightarrow> VersionData option" where
  "findVersion_loop log fname h i =
     (if i < length log then
        (if findVersion_files fname h (upload (log ! i) @ omit (log ! i))
         then Some \<lparr>versionIndex = i, vd_timestamp = timestamp (log ! i)\<rparr>
         else findVersion_loop log fname h (Suc i))
      else None)"
  by pat_completeness auto
termination
  by (relation "measure (\<lambda>(log, fname, h, i). length log - i)") auto

declare findVersion_loop.simps [simp del]

text \<open>\<^verbatim>\<open>startIndex\<close> is an array index; left out, it is 0.\<close>

definition findVersion ::
  "LogRecord list \<Rightarrow> string \<Rightarrow> string option \<Rightarrow> nat option \<Rightarrow> VersionData option" where
  "findVersion log fname h startIndex =
     findVersion_loop log fname h (case startIndex of None \<Rightarrow> 0 | Some s \<Rightarrow> s)"

text \<open>
  What the specification says a snapshot must hold for \<^verbatim>\<open>findVersion\<close> to stop at it:
  a file record of that name, and of that hash when a hash is given. The second
  predicate treats the empty hash as no hash.
\<close>

definition holds_file_spec :: "string \<Rightarrow> string option \<Rightarrow> LogRecord \<Rightarrow> bool" where
  "holds_file_spec fname h snapshot =
     list_ex (\<lambda>f. filename f = fname \<and> (case h of None \<Rightarrow> True | Some x \<Rightarrow> hash f = x))
       (upload snapshot @ omit snapshot)"

definition holds_file_nonempty_hash :: "string \<Rightarrow> string option \<Rightarrow> LogRecord \<Rightarrow> bool" where
  "holds_file_nonempty_hash fname h snapshot =
     list_ex (\<lambda>f. filename f = fname \<and>
         (case h of None \<Rightarrow> True | Some x \<Rightarrow> x = [] \<or> hash f = x))
       (upload snapshot @ omit snapshot)"

section \<open>VersionLog as an object on a heap of arrays\<close>

text \<open>
  For the properties about aliasing, arrays of snapshots live in a heap and are named by
  their position in it; allocation appends. A \<^verbatim>\<open>VersionLog\<close> object holds the reference
  of its \<^verbatim>\<open>record\<close> array. The methods below are the ones above with every read,
  allocation and in-place update of the source written out. The snapshots in an array
  are values here: \<^verbatim>\<open>slice\<close> copies the array, not the objects in it.
\<close>

type_synonym ref = nat
type_synonym heap = "LogRecord list list"

record VersionLog =
  record_ref :: ref

definition heap_alloc :: "heap \<Rightarrow> LogRecord list \<Rightarrow> heap \<times> ref" where
  "heap_alloc h xs = (h @ [xs], length h)"

text \<open>The constructor: \<^verbatim>\<open>this.record = []\<close>.\<close>

definition VersionLog_new :: "heap \<Rightarrow> heap \<times> VersionLog" where
  "VersionLog_new h = (let (h', r) = heap_alloc h [] in (h', \<lparr>record_ref = r\<rparr>))"

text \<open>
  \<^verbatim>\<open>content.slice()\<close> allocates, \<^verbatim>\<open>.sort(...)\<close> sorts the new array in place and
  returns it, and the assignment stores its reference.
\<close>

definition VersionLog_init :: "heap \<times> VersionLog \<Rightarrow> ref \<Rightarrow> heap \<times> VersionLog" where
  "VersionLog_init s content =
     (let (h, this) = s;
          (h1, copy) = heap_alloc h (Array_slice (h ! content) None None);
          h2 = h1[copy := Array_sort init_compare (h1 ! copy)]
      in (h2, this\<lparr>record_ref := copy\<rparr>))"

text \<open>\<^verbatim>\<open>unshift\<close> updates the array in place.\<close>

definition VersionLog_append :: "heap \<times> VersionLog \<Rightarrow> LogRecord \<Rightarrow> heap \<times> VersionLog" where
  "VersionLog_append s entry =
     (let (h, this) = s in (h[record_ref this := entry # (h ! record_ref this)], this))"

definition VersionLog_findVersion ::
  "heap \<times> VersionLog \<Rightarrow> string \<Rightarrow> string option \<Rightarrow> nat option
     \<Rightarrow> (heap \<times> VersionLog) \<times> VersionData option" where
  "VersionLog_findVersion s fname h startIndex =
     (let (hp, this) = s; log = hp ! record_ref this
      in ((hp, this), findVersion log fname h startIndex))"

definition VersionLog_getLastVersion ::
  "heap \<times> VersionLog \<Rightarrow> (heap \<times> VersionLog) \<times> LogRecord option" where
  "VersionLog_getLastVersion s =
     (let (hp, this) = s in ((hp, this), getLastVersion (hp ! record_ref this)))"

definition VersionLog_getFirstExpireVersionIndex ::
  "heap \<times> VersionLog \<Rightarrow> int option \<Rightarrow> int option \<Rightarrow> (heap \<times> VersionLog) \<times> nat" where
  "VersionLog_getFirstExpireVersionIndex s maxiumVersion deadline =
     (let (hp, this) = s; log = hp ! record_ref this
      in ((hp, this), getFirstExpireVersionIndex log maxiumVersion deadline))"

text \<open>The two slicing methods return the reference of a newly allocated array.\<close>

definition VersionLog_getFreshVersions ::
  "heap \<times> VersionLog \<Rightarrow> int option \<Rightarrow> int option \<Rightarrow> (heap \<times> VersionLog) \<times> ref" where
  "VersionLog_getFreshVersions s maxiumVersion deadline =
     (let (s1, expireIndex) = VersionLog_getFirstExpireVersionIndex s maxiumVersion deadline;
          (hp, this) = s1;
          (hp', r) = heap_alloc hp (Array_slice (hp ! record_ref this) (Some 0) (Some (int expireIndex)))
      in ((hp', this), r))"

definition VersionLog_getVersions ::
  "heap \<times> VersionLog \<Rightarrow> int option \<Rightarrow> int option \<Rightarrow> (heap \<times> VersionLog) \<times> ref" where
  "VersionLog_getVersions s startIndex endIndex =
     (let (hp, this) = s;
          (hp', r) = heap_alloc hp (Array_slice (hp ! record_ref this) startIndex endIndex)
      in ((hp', this), r))"

text \<open>
  A heap is well formed for an object and an argument array when both references are
  allocated.
\<close>

definition allocated :: "heap \<Rightarrow> ref \<Rightarrow> bool" where
  "allocated h r = (r < length h)"

text \<open>No array that was allocated in \<open>h\<close> differs in \<open>h'\<close>.\<close>

definition arrays_kept :: "heap \<Rightarrow> heap \<Rightarrow> bool" where
  "arrays_kept h h' = (length h \<le> length h' \<and> take (length h) h' = h)"


section \<open>utils.js\<close>

type_synonym byte = "8 word"

text \<open>
  \<^verbatim>\<open>filePath2Uri\<close> replaces every backslash by a slash
  (\<^verbatim>\<open>filepath.replace(/\\/g, '/')\<close>).
\<close>

definition filePath2Uri :: "string \<Rightarrow> string" where
  "filePath2Uri filepath = map (\<lambda>c. if c = CHR 0x5C then CHR ''/'' else c) filepath"

text \<open>
  \<^verbatim>\<open>hashChunk\<close> is the SHA-1 digest of Node's \<^verbatim>\<open>crypto\<close> module, which is not code
  of this repository: the digest function is a parameter.
\<close>

definition hashChunk :: "(byte list \<Rightarrow> byte list) \<Rightarrow> byte list \<Rightarrow> byte list" where
  "hashChunk sha1 buf = sha1 buf"

section \<open>QiniuHelper.hashFile\<close>

definition BUFFER_LENGTH_OF_4M :: nat where
  "BUFFER_LENGTH_OF_4M = 4 * 2 ^ (10 * 2)"

text \<open>
  The \<^verbatim>\<open>while (buf.length)\<close> loop: it hashes the first 4 MiB, pushes the digest and
  goes on with the rest of the buffer.
\<close>

function hashFile_loop ::
  "(byte list \<Rightarrow> byte list) \<Rightarrow> byte list \<Rightarrow> byte list list \<Rightarrow> byte list list" where
  "hashFile_loop sha1 buf chunkHashes =
     (if length buf \<noteq> 0 then
        hashFile_loop sha1 (drop BUFFER_LENGTH_OF_4M buf)
          (chunkHashes @ [hashChunk sha1 (take BUFFER_LENGTH_OF_4M buf)])
      else chunkHashes)"
  by pat_completeness auto
termination
  by (relation "measure (\<lambda>(sha1, buf, chunkHashes). length buf)")
     (auto simp: BUFFER_LENGTH_OF_4M_def)

declare hashFile_loop.simps [simp del]

text \<open>
  The callback of \<^verbatim>\<open>.replace(/\/|\+/g, ...)\<close> and the replacement itself: only the
  characters the pattern matches go through the callback.
\<close>

definition replace_match :: "char \<Rightarrow> char" where
  "replace_match m = (if m = CHR ''+'' then CHR ''-'' else CHR ''_'')"

definition replace_slash_plus :: "string \<Rightarrow> string" where
  "replace_slash_plus s =
     map (\<lambda>c. if c = CHR ''/'' \<or> c = CHR ''+'' then replace_match c else c) s"

text \<open>
  \<^verbatim>\<open>hashFile\<close>. The base64 encoding is \<^verbatim>\<open>Buffer.toString('base64')\<close> of Node,
  a parameter like the digest.
\<close>

definition hashFile ::
  "(byte list \<Rightarrow> byte list) \<Rightarrow> (byte list \<Rightarrow> string) \<Rightarrow> byte list \<Rightarrow> string" where
  "hashFile sha1 base64 buf =
     (let fileHash =
        (if length buf \<le> BUFFER_LENGTH_OF_4M then
           (let chunkHash = hashChunk sha1 buf in [0x16] @ chunkHash)
         else
           (let chunkHashes = hashFile_loop sha1 buf [];
                hashOfHash = hashChunk sha1 (concat chunkHashes)
            in [0x96] @ hashOfHash))
      in replace_slash_plus (base64 fileHash))"

text \<open>
  The specification's words: the content cut into consecutive chunks of \<open>n\<close> bytes, the
  last one possibly shorter, and the URL-safe alphabet.
\<close>

definition chunks_spec :: "nat \<Rightarrow> 'a list \<Rightarrow> 'a list list" where
  "chunks_spec n xs = map (\<lambda>k. take n (drop (k * n) xs)) [0..<(length xs + n - 1) div n]"

definition urlsafe_spec :: "char \<Rightarrow> char" where
  "urlsafe_spec c = (if c = CHR ''+'' then CHR ''-'' else if c = CHR ''/'' then CHR ''_'' else c)"

section \<open>QiniuCDNPlugin: the upload status\<close>

text \<open>
  \<^verbatim>\<open>this.uploadStatus\<close>, one list per field, and the local files read from disk
  (\<^verbatim>\<open>LocalFile\<close>). The constructor starts every list empty.
\<close>

record UploadStatus =
  st_remote :: "LogDetail list"
  st_exclude :: "LogDetail list"
  st_overwrite :: "LogDetail list"
  st_omit :: "LogDetail list"
  st_upload :: "LogDetail list"
  st_clean :: "LogDetail list"

record LocalFile =
  filePath :: string
  content :: "byte list"
  fileHash :: string

definition new_uploadStatus :: UploadStatus where
  "new_uploadStatus = \<lparr>st_remote = [], st_exclude = [], st_overwrite = [], st_omit = [],
     st_upload = [], st_clean = []\<rparr>"

text \<open>
  Errors are values. The two \<^verbatim>\<open>TypeError\<close>s are the ones the language raises when
  \<^verbatim>\<open>initCleanStatus\<close> reads \<^verbatim>\<open>.timestamp\<close> or \<^verbatim>\<open>.versionIndex\<close> of \<^verbatim>\<open>undefined\<close>;
  \<open>CollaboratorError\<close> is an error handed over by the storage client, the HTTP client
  or the file system.
\<close>

datatype error =
    CollaboratorError string
  | ParseRemoteLogError
  | FetchRemoteLogError int string
  | TypeError_timestamp_of_undefined
  | TypeError_versionIndex_of_undefined

section \<open>QiniuCDNPlugin.initUploadStatus\<close>



text \<open>
  The \<^verbatim>\<open>forEach\<close> of lines 292-313. \<open>relative\<close> is
  \<^verbatim>\<open>path.relative(this.outputPath, _)\<close> of Node. The branches are the source's, in
  its order. (The assignment to \<^verbatim>\<open>this.fileSource\<close> is left out: no bucket reads it.)
\<close>

fun diffLocalFiles ::
  "(string \<Rightarrow> string) \<Rightarrow> LogDetail list \<Rightarrow> LocalFile list \<Rightarrow> UploadStatus \<Rightarrow> UploadStatus" where
  "diffLocalFiles relative remoteFiles [] st = st"
| "diffLocalFiles relative remoteFiles (file # files) st =
     (let pathname = relative (filePath file);
          fileUri = filePath2Uri pathname;
          remoteFile = find (\<lambda>item. filename item = fileUri) remoteFiles;
          logItme = \<lparr>filename = fileUri, hash = fileHash file\<rparr>
      in diffLocalFiles relative remoteFiles files
           (if (case remoteFile of None \<Rightarrow> False | Some r \<Rightarrow> hash r = fileHash file)
            then st\<lparr>st_omit := st_omit st @ [logItme]\<rparr>
            else if remoteFile = None
            then st\<lparr>st_upload := st_upload st @ [logItme]\<rparr>
            else st\<lparr>st_overwrite := st_overwrite st @ [logItme]\<rparr>))"


text \<open>
  The classification in the specification's words: look the file's name up among the
  remote files; no match is an upload, a match of equal hash an omission, a match of
  another hash an overwrite.
\<close>

datatype bucket = Upload | Omit | Overwrite

definition remote_match_spec :: "LogDetail list \<Rightarrow> string \<Rightarrow> LogDetail option" where
  "remote_match_spec remoteFiles fname =
     (case filter (\<lambda>r. filename r = fname) remoteFiles of [] \<Rightarrow> None | r # _ \<Rightarrow> Some r)"

definition classify_spec :: "LogDetail list \<Rightarrow> LogDetail \<Rightarrow> bucket" where
  "classify_spec remoteFiles item =
     (case remote_match_spec remoteFiles (filename item) of
        None \<Rightarrow> Upload
      | Some r \<Rightarrow> if hash r = hash item then Omit else Overwrite)"

text \<open>The log entry of a local file, and of a path of the build.\<close>

definition logItem :: "(string \<Rightarrow> string) \<Rightarrow> LocalFile \<Rightarrow> LogDetail" where
  "logItem relative file =
     \<lparr>filename = filePath2Uri (relative (filePath file)), hash = fileHash file\<rparr>"





section \<open>QiniuCDNPlugin.initCleanStatus\<close>

record ExpireOption =
  time :: "int option"
  versions :: "int option"

text \<open>
  The inner \<^verbatim>\<open>files.forEach\<close>: \<^verbatim>\<open>log.findVersion(file.filename).versionIndex\<close> raises
  when \<^verbatim>\<open>findVersion\<close> returns \<^verbatim>\<open>undefined\<close>.
\<close>

fun cleanFiles ::
  "LogRecord list \<Rightarrow> nat \<Rightarrow> LogDetail list \<Rightarrow> LogDetail list \<Rightarrow> error + LogDetail list" where
  "cleanFiles log firstExpireVersionIndex [] cleanStatus = Inr cleanStatus"
| "cleanFiles log firstExpireVersionIndex (file # files) cleanStatus =
     (case findVersion log (filename file) None None of
        None \<Rightarrow> Inl TypeError_versionIndex_of_undefined
      | Some v \<Rightarrow>
          cleanFiles log firstExpireVersionIndex files
            (if versionIndex v \<ge> firstExpireVersionIndex then cleanStatus @ [file]
             else cleanStatus))"

text \<open>
  The outer \<^verbatim>\<open>forEach(({ omit, upload }, index, arr) => ...)\<close>: the snapshots still to
  visit, the index of the first of them, and the whole array \<^verbatim>\<open>arr\<close>.
\<close>

fun cleanVersions ::
  "LogRecord list \<Rightarrow> nat \<Rightarrow> LogRecord list \<Rightarrow> nat \<Rightarrow> LogRecord list \<Rightarrow> LogDetail list
     \<Rightarrow> error + LogDetail list" where
  "cleanVersions log firstExpireVersionIndex [] index arr cleanStatus = Inr cleanStatus"
| "cleanVersions log firstExpireVersionIndex (v # vs) index arr cleanStatus =
     (let files = [] @ upload v @ (if index = length arr - 1 then omit v else [])
      in case cleanFiles log firstExpireVersionIndex files cleanStatus of
           Inl err \<Rightarrow> Inl err
         | Inr cleanStatus' \<Rightarrow>
             cleanVersions log firstExpireVersionIndex vs (Suc index) arr cleanStatus')"

definition initCleanStatus ::
  "LogRecord list \<Rightarrow> ExpireOption \<Rightarrow> UploadStatus \<Rightarrow> error + UploadStatus" where
  "initCleanStatus log expire st =
     (let lastVersion = getLastVersion log;
          deadline =
            (case time expire of
               Some expireTime \<Rightarrow>
                 (case lastVersion of
                    None \<Rightarrow> Inl TypeError_timestamp_of_undefined
                  | Some lv \<Rightarrow> Inr (Some (timestamp lv - expireTime)))
             | None \<Rightarrow> Inr None)
      in case deadline of
           Inl err \<Rightarrow> Inl err
         | Inr deadline' \<Rightarrow>
             (let firstExpireVersionIndex =
                    getFirstExpireVersionIndex log (versions expire) deadline';
                  arr = getVersions log (Some (int firstExpireVersionIndex)) None
              in case cleanVersions log firstExpireVersionIndex arr 0 arr (st_clean st) of
                   Inl err \<Rightarrow> Inl err
                 | Inr cleanStatus \<Rightarrow> Inr (st\<lparr>st_clean := cleanStatus\<rparr>)))"

text \<open>
  The clean set in the specification's words: the deadline, the expiry index, the
  candidates (the uploads of every snapshot from the expiry index on, and the omitted
  files of the last snapshot of the log only), and the candidates whose most recent
  version is at or beyond the expiry index.
\<close>

definition deadline_spec :: "LogRecord list \<Rightarrow> ExpireOption \<Rightarrow> int option" where
  "deadline_spec log policy =
     (case time policy of None \<Rightarrow> None | Some t \<Rightarrow> Some (timestamp (log ! 0) - t))"

definition expireIndex_spec :: "LogRecord list \<Rightarrow> ExpireOption \<Rightarrow> nat" where
  "expireIndex_spec log policy =
     getFirstExpireVersionIndex log (versions policy) (deadline_spec log policy)"

definition candidates_spec :: "LogRecord list \<Rightarrow> nat \<Rightarrow> LogDetail list" where
  "candidates_spec log expireIndex =
     concat (map (\<lambda>i. upload (log ! i) @ (if Suc i = length log then omit (log ! i) else []))
       [expireIndex..<length log])"

definition cleanSet_spec :: "LogRecord list \<Rightarrow> ExpireOption \<Rightarrow> LogDetail list" where
  "cleanSet_spec log policy =
     filter
       (\<lambda>f. case findVersion log (filename f) None None of
               None \<Rightarrow> False
             | Some v \<Rightarrow> expireIndex_spec log policy \<le> versionIndex v)
       (candidates_spec log (expireIndex_spec log policy))"

section \<open>QiniuCDNPlugin.initCDNStatus\<close>

text \<open>The \<^verbatim>\<open>File\<close> of \<^verbatim>\<open>QiniuHelper.listCdnFiles\<close>.\<close>

record File =
  name :: string
  file_hash :: string

text \<open>\<^verbatim>\<open>Array.prototype.findIndex\<close>: the first index that passes the test, or -1.\<close>

fun Array_findIndex_from :: "('a \<Rightarrow> bool) \<Rightarrow> 'a list \<Rightarrow> int \<Rightarrow> int" where
  "Array_findIndex_from test [] i = -1"
| "Array_findIndex_from test (x # xs) i =
     (if test x then i else Array_findIndex_from test xs (i + 1))"

definition Array_findIndex :: "('a \<Rightarrow> bool) \<Rightarrow> 'a list \<Rightarrow> int" where
  "Array_findIndex test xs = Array_findIndex_from test xs 0"

text \<open>\<^verbatim>\<open>splice(i, 1)\<close> at an index of the array removes that element.\<close>

definition Array_splice1 :: "'a list \<Rightarrow> int \<Rightarrow> 'a list" where
  "Array_splice1 xs i = take (nat i) xs @ drop (Suc (nat i)) xs"

text \<open>
  How the continuation of a phase was invoked: not at all, without an argument, or with
  an error.
\<close>

datatype callback = NotCalled | Called "error option"

text \<open>
  \<^verbatim>\<open>initCDNStatus\<close>. The collaborators are parameters: \<open>listCdnFiles\<close> is what the
  storage client hands to its callback, \<open>readRemoteFile\<close> what the HTTP client hands over
  for the URL of the log file (an error, or status code and body), \<open>JSON_parse\<close> the
  parsed log or \<open>None\<close> when parsing or \<^verbatim>\<open>log.init\<close> throws. The state is the version
  log and the upload status; the assignment to \<^verbatim>\<open>uploadStatus.remote\<close> at the end of
  the listing callback runs before the HTTP response arrives.
\<close>

definition initCDNStatus ::
  "string \<Rightarrow> string \<Rightarrow> (error + File list) \<Rightarrow> (string \<Rightarrow> error + int \<times> string) \<Rightarrow>
   (string \<Rightarrow> LogRecord list option) \<Rightarrow> LogRecord list \<times> UploadStatus \<Rightarrow>
   (LogRecord list \<times> UploadStatus) \<times> callback" where
  "initCDNStatus logFileName remotePathname listCdnFiles readRemoteFile JSON_parse s =
     (let (log, st) = s in
      case listCdnFiles of
        Inl err \<Rightarrow> ((log, st), Called (Some err))
      | Inr files \<Rightarrow>
          (let remoteFiles = files;
               logFileIndex =
                 Array_findIndex (\<lambda>item. logFileName \<noteq> [] \<and> name item = logFileName) remoteFiles
           in if logFileIndex \<noteq> -1 then
                (let remoteFiles' = Array_splice1 remoteFiles logFileIndex;
                     logFileUrl = remotePathname @ logFileName;
                     st' = st\<lparr>st_remote :=
                       map (\<lambda>item. \<lparr>filename = name item, hash = file_hash item\<rparr>) remoteFiles'\<rparr>
                 in case readRemoteFile logFileUrl of
                      Inl readLogError \<Rightarrow> ((log, st'), Called (Some readLogError))
                    | Inr (statusCode, body) \<Rightarrow>
                        if statusCode = 200 \<or> statusCode = 304 then
                          (case JSON_parse body of
                             Some records \<Rightarrow> ((init records, st'), Called None)
                           | None \<Rightarrow> ((log, st'), Called (Some ParseRemoteLogError)))
                        else if statusCode = 404 then ((log, st'), NotCalled)
                        else ((log, st'), Called (Some (FetchRemoteLogError statusCode body))))
              else
                ((log, st\<lparr>st_remote :=
                    map (\<lambda>item. \<lparr>filename = name item, hash = file_hash item\<rparr>) remoteFiles\<rparr>),
                 Called None)))"


section \<open>Properties of getFirstExpireVersionIndex\<close>

lemma expireTest_expired_spec:
  "expireTest mv dl i ts = expired_spec mv dl i ts"
  by (cases mv; cases dl) (auto simp: expireTest_def expired_spec_def)

lemma getFirstExpireVersionIndex_loop_bounds:
  "i \<le> length log \<Longrightarrow>
     i \<le> getFirstExpireVersionIndex_loop log mv dl i \<and>
     getFirstExpireVersionIndex_loop log mv dl i \<le> length log"
proof (induction log mv dl i rule: getFirstExpireVersionIndex_loop.induct)
  case (1 log mv dl i)
  show ?case
  proof (cases "i < length log \<and> \<not> expireTest mv dl i (timestamp (log ! i))")
    case True
    then have "Suc i \<le> length log" by simp
    from "1.IH" [OF _ _ this] True show ?thesis
      by (subst (1 2) getFirstExpireVersionIndex_loop.simps) simp
  next
    case False
    with "1.prems" show ?thesis
      by (subst (1 2) getFirstExpireVersionIndex_loop.simps) auto
  qed
qed

lemma getFirstExpireVersionIndex_loop_fresh:
  "i \<le> j \<Longrightarrow> j < getFirstExpireVersionIndex_loop log mv dl i \<Longrightarrow> i \<le> length log \<Longrightarrow>
     \<not> expireTest mv dl j (timestamp (log ! j))"
proof (induction log mv dl i rule: getFirstExpireVersionIndex_loop.induct)
  case (1 log mv dl i)
  show ?case
  proof (cases "i < length log \<and> \<not> expireTest mv dl i (timestamp (log ! i))")
    case True
    then have step: "getFirstExpireVersionIndex_loop log mv dl i =
        getFirstExpireVersionIndex_loop log mv dl (Suc i)"
      by (subst getFirstExpireVersionIndex_loop.simps) simp
    show ?thesis
    proof (cases "j = i")
      case True
      with \<open>i < length log \<and> \<not> expireTest mv dl i (timestamp (log ! i))\<close> show ?thesis by simp
    next
      case False
      with "1.prems" have "Suc i \<le> j" by simp
      moreover from "1.prems" step have "j < getFirstExpireVersionIndex_loop log mv dl (Suc i)"
        by simp
      moreover from True have "Suc i \<le> length log" by simp
      ultimately show ?thesis using "1.IH" True by blast
    qed
  next
    case False
    then have "getFirstExpireVersionIndex_loop log mv dl i = i"
      by (subst getFirstExpireVersionIndex_loop.simps) auto
    with "1.prems" show ?thesis by simp
  qed
qed

lemma getFirstExpireVersionIndex_loop_hit:
  "i \<le> length log \<Longrightarrow> getFirstExpireVersionIndex_loop log mv dl i < length log \<Longrightarrow>
     expireTest mv dl (getFirstExpireVersionIndex_loop log mv dl i)
       (timestamp (log ! getFirstExpireVersionIndex_loop log mv dl i))"
proof (induction log mv dl i rule: getFirstExpireVersionIndex_loop.induct)
  case (1 log mv dl i)
  show ?case
  proof (cases "i < length log \<and> \<not> expireTest mv dl i (timestamp (log ! i))")
    case True
    then have step: "getFirstExpireVersionIndex_loop log mv dl i =
        getFirstExpireVersionIndex_loop log mv dl (Suc i)"
      by (subst getFirstExpireVersionIndex_loop.simps) simp
    from True have "Suc i \<le> length log" by simp
    with "1.IH" True "1.prems" step show ?thesis by simp
  next
    case False
    then have stop: "getFirstExpireVersionIndex_loop log mv dl i = i"
      by (subst getFirstExpireVersionIndex_loop.simps) auto
    with "1.prems" False show ?thesis by auto
  qed
qed

text \<open>
  C1. For every log and every combination of the two optional bounds,
  \<^verbatim>\<open>getFirstExpireVersionIndex\<close> returns the least index whose snapshot is expired
  under the rule of the specification (both bounds together when both are given, the
  single bound alone when one is given), and the length of the log when no snapshot is
  expired; with no bound it returns the length of the log. With both bounds the index
  returned is never one within \<^verbatim>\<open>maxVersions\<close>, however old that snapshot is.
\<close>

theorem getFirstExpireVersionIndex_first_expired:
  "getFirstExpireVersionIndex log mv dl \<le> length log \<and>
   (\<forall>j < getFirstExpireVersionIndex log mv dl.
      \<not> expired_spec mv dl j (timestamp (log ! j))) \<and>
   (getFirstExpireVersionIndex log mv dl < length log \<longrightarrow>
      expired_spec mv dl (getFirstExpireVersionIndex log mv dl)
        (timestamp (log ! getFirstExpireVersionIndex log mv dl))) \<and>
   (mv = None \<and> dl = None \<longrightarrow> getFirstExpireVersionIndex log mv dl = length log) \<and>
   (\<forall>m d j. mv = Some m \<and> dl = Some d \<and> j < length log \<and> int j \<le> m \<longrightarrow>
      getFirstExpireVersionIndex log mv dl \<noteq> j)"
proof -
  let ?r = "getFirstExpireVersionIndex log mv dl"
  have bound: "?r \<le> length log"
    using getFirstExpireVersionIndex_loop_bounds [of 0 log mv dl]
    by (simp add: getFirstExpireVersionIndex_def)
  have fresh: "\<forall>j < ?r. \<not> expired_spec mv dl j (timestamp (log ! j))"
    using getFirstExpireVersionIndex_loop_fresh [of 0 _ log mv dl]
    by (simp add: getFirstExpireVersionIndex_def expireTest_expired_spec)
  have hit: "?r < length log \<longrightarrow> expired_spec mv dl ?r (timestamp (log ! ?r))"
    using getFirstExpireVersionIndex_loop_hit [of 0 log mv dl]
    by (simp add: getFirstExpireVersionIndex_def expireTest_expired_spec)
  have none: "mv = None \<and> dl = None \<longrightarrow> ?r = length log"
  proof
    assume "mv = None \<and> dl = None"
    then have "\<not> expired_spec mv dl ?r (timestamp (log ! ?r))"
      by (simp add: expired_spec_def)
    with hit bound show "?r = length log" by auto
  qed
  have both: "\<forall>m d j. mv = Some m \<and> dl = Some d \<and> j < length log \<and> int j \<le> m \<longrightarrow> ?r \<noteq> j"
  proof (intro allI impI)
    fix m d j
    assume a: "mv = Some m \<and> dl = Some d \<and> j < length log \<and> int j \<le> m"
    show "?r \<noteq> j"
    proof
      assume "?r = j"
      with a hit have "expired_spec mv dl j (timestamp (log ! j))" by simp
      with a show False by (simp add: expired_spec_def)
    qed
  qed
  from bound fresh hit none both show ?thesis by blast
qed

theorem getFirstExpireVersionIndex_first_expired_witness:
  "getFirstExpireVersionIndex
     [\<lparr>timestamp = 20, upload = [], omit = []\<rparr>,
      \<lparr>timestamp = 10, upload = [], omit = []\<rparr>,
      \<lparr>timestamp = 5, upload = [], omit = []\<rparr>] (Some 1) (Some 15) = 2 \<and>
   \<not> expired_spec (Some 1) (Some 15) 1 10 \<and> expired_spec (Some 1) (Some 15) 2 5"
  using getFirstExpireVersionIndex_first_expired
    [of "[\<lparr>timestamp = 20, upload = [], omit = []\<rparr>,
          \<lparr>timestamp = 10, upload = [], omit = []\<rparr>,
          \<lparr>timestamp = 5, upload = [], omit = []\<rparr>]" "Some 1" "Some 15"]
  by (simp add: getFirstExpireVersionIndex_def getFirstExpireVersionIndex_loop.simps
      expireTest_def expired_spec_def)

section \<open>Properties of init and getLastVersion\<close>

lemma Array_slice_whole: "Array_slice xs None None = xs"
  by (simp add: Array_slice_def)

lemma mset_Array_sort_insert: "mset (Array_sort_insert cmp x xs) = add_mset x (mset xs)"
  by (induction xs) auto

lemma mset_Array_sort: "mset (Array_sort cmp xs) = mset xs"
  by (induction xs) (auto simp: Array_sort_def mset_Array_sort_insert)

lemma set_Array_sort_insert: "set (Array_sort_insert cmp x xs) = insert x (set xs)"
  by (induction xs) auto

lemma descending_Array_sort_insert:
  "sorted_wrt (\<lambda>a b. timestamp b \<le> timestamp a) xs \<Longrightarrow>
     sorted_wrt (\<lambda>a b. timestamp b \<le> timestamp a) (Array_sort_insert init_compare x xs)"
  by (induction xs) (auto simp: set_Array_sort_insert init_compare_def)

lemma descending_Array_sort:
  "sorted_wrt (\<lambda>a b. timestamp b \<le> timestamp a) (Array_sort init_compare xs)"
proof (induction xs)
  case Nil
  show ?case by (simp add: Array_sort_def)
next
  case (Cons x xs)
  then show ?case
    using descending_Array_sort_insert [of "Array_sort init_compare xs" x]
    by (simp add: Array_sort_def)
qed

lemma stable_Array_sort_insert:
  "sorted_wrt (\<lambda>a b. timestamp b \<le> timestamp a) xs \<Longrightarrow>
   filter (\<lambda>r. timestamp r = t) (Array_sort_insert init_compare x xs) =
     filter (\<lambda>r. timestamp r = t) (x # xs)"
proof (induction xs)
  case Nil
  show ?case by simp
next
  case (Cons y ys)
  show ?case
  proof (cases "init_compare x y \<le> 0")
    case True
    then show ?thesis by simp
  next
    case False
    then have lt: "timestamp x < timestamp y" by (simp add: init_compare_def)
    from Cons.prems have "sorted_wrt (\<lambda>a b. timestamp b \<le> timestamp a) ys" by simp
    from Cons.IH [OF this] False lt show ?thesis by auto
  qed
qed

lemma stable_Array_sort:
  "filter (\<lambda>r. timestamp r = t) (Array_sort init_compare xs) = filter (\<lambda>r. timestamp r = t) xs"
proof (induction xs)
  case Nil
  show ?case by (simp add: Array_sort_def)
next
  case (Cons x xs)
  have "filter (\<lambda>r. timestamp r = t) (Array_sort init_compare (x # xs)) =
      filter (\<lambda>r. timestamp r = t) (x # Array_sort init_compare xs)"
    using stable_Array_sort_insert [OF descending_Array_sort, of t x xs]
    by (simp add: Array_sort_def)
  with Cons.IH show ?case by simp
qed

lemma getLastVersion_descending:
  assumes "sorted_wrt (\<lambda>a b. timestamp b \<le> timestamp a) log" and "log \<noteq> []"
  shows "\<exists>r. getLastVersion log = Some r \<and> r = log ! 0 \<and> r \<in> set log \<and>
           (\<forall>s \<in> set log. timestamp s \<le> timestamp r)"
proof (cases log)
  case Nil
  with assms show ?thesis by simp
next
  case (Cons r rs)
  with assms show ?thesis by (auto simp: getLastVersion_def)
qed

lemma VersionLog_init_record:
  "allocated h c \<Longrightarrow>
     (case VersionLog_init (h, this) c of (h', this') \<Rightarrow> h' ! record_ref this' = init (h ! c))"
  by (simp add: VersionLog_init_def heap_alloc_def allocated_def init_def Let_def)

text \<open>
  C7. For every list of snapshots, \<^verbatim>\<open>init\<close> makes the history a permutation of the
  list in descending order of timestamp (snapshots of equal timestamp keep their order),
  whatever the history was before; afterwards \<^verbatim>\<open>getLastVersion\<close> returns the snapshot
  at index 0, whose timestamp is the greatest of the list, and \<^verbatim>\<open>undefined\<close> when the
  list is empty.
\<close>

theorem init_sorts_descending:
  "mset (init recs) = mset recs \<and>
   sorted_wrt (\<lambda>a b. timestamp b \<le> timestamp a) (init recs) \<and>
   (\<forall>t. filter (\<lambda>r. timestamp r = t) (init recs) = filter (\<lambda>r. timestamp r = t) recs) \<and>
   (recs = [] \<longrightarrow> getLastVersion (init recs) = None) \<and>
   (recs \<noteq> [] \<longrightarrow>
      (\<exists>r. getLastVersion (init recs) = Some r \<and> r = init recs ! 0 \<and> r \<in> set recs \<and>
         (\<forall>s \<in> set recs. timestamp s \<le> timestamp r))) \<and>
   (\<forall>h this c. allocated h c \<longrightarrow>
      (case VersionLog_init (h, this) c of
         (h', this') \<Rightarrow> h' ! record_ref this' = init (h ! c)))"
proof -
  have perm: "mset (init recs) = mset recs"
    by (simp add: init_def Array_slice_whole mset_Array_sort)
  have desc: "sorted_wrt (\<lambda>a b. timestamp b \<le> timestamp a) (init recs)"
    by (simp add: init_def descending_Array_sort)
  have stable: "\<forall>t. filter (\<lambda>r. timestamp r = t) (init recs) =
      filter (\<lambda>r. timestamp r = t) recs"
    by (simp add: init_def Array_slice_whole stable_Array_sort)
  have empty: "recs = [] \<longrightarrow> getLastVersion (init recs) = None"
    by (simp add: init_def Array_slice_whole Array_sort_def getLastVersion_def)
  have last: "recs \<noteq> [] \<longrightarrow>
      (\<exists>r. getLastVersion (init recs) = Some r \<and> r = init recs ! 0 \<and> r \<in> set recs \<and>
         (\<forall>s \<in> set recs. timestamp s \<le> timestamp r))"
  proof
    assume ne: "recs \<noteq> []"
    from perm have same: "set (init recs) = set recs" by (rule mset_eq_setD)
    from perm ne have "init recs \<noteq> []" by auto
    from getLastVersion_descending [OF desc this] same show
      "\<exists>r. getLastVersion (init recs) = Some r \<and> r = init recs ! 0 \<and> r \<in> set recs \<and>
         (\<forall>s \<in> set recs. timestamp s \<le> timestamp r)" by simp
  qed
  have obj: "\<forall>h this c. allocated h c \<longrightarrow>
      (case VersionLog_init (h, this) c of
         (h', this') \<Rightarrow> h' ! record_ref this' = init (h ! c))"
    by (intro allI impI) (rule VersionLog_init_record)
  from perm desc stable empty last obj show ?thesis by blast
qed


theorem init_sorts_descending_witness:
  "init [\<lparr>timestamp = 5, upload = [], omit = []\<rparr>,
         \<lparr>timestamp = 20, upload = [], omit = []\<rparr>,
         \<lparr>timestamp = 1, upload = [], omit = []\<rparr>] =
     [\<lparr>timestamp = 20, upload = [], omit = []\<rparr>,
      \<lparr>timestamp = 5, upload = [], omit = []\<rparr>,
      \<lparr>timestamp = 1, upload = [], omit = []\<rparr>] \<and>
   getLastVersion (init [\<lparr>timestamp = 5, upload = [], omit = []\<rparr>,
         \<lparr>timestamp = 20, upload = [], omit = []\<rparr>,
         \<lparr>timestamp = 1, upload = [], omit = []\<rparr>]) =
     Some \<lparr>timestamp = 20, upload = [], omit = []\<rparr>"
  using init_sorts_descending
    [of "[\<lparr>timestamp = 5, upload = [], omit = []\<rparr>,
          \<lparr>timestamp = 20, upload = [], omit = []\<rparr>,
          \<lparr>timestamp = 1, upload = [], omit = []\<rparr>]"]
  by (simp add: init_def Array_slice_def Array_sort_def init_compare_def getLastVersion_def)

section \<open>Properties of findVersion\<close>

lemma findVersion_files_list_ex:
  "findVersion_files fname h files =
     list_ex (\<lambda>f. (hash_falsy h \<or> h = Some (hash f)) \<and> fname = filename f) files"
  by (induction files) auto

lemma findVersion_files_holds:
  "findVersion_files fname h (upload snapshot @ omit snapshot) =
     holds_file_nonempty_hash fname h snapshot"
  unfolding findVersion_files_list_ex holds_file_nonempty_hash_def hash_falsy_def list_ex_iff
  by (cases h) auto

lemma findVersion_loop_None:
  "findVersion_loop log fname h i = None \<Longrightarrow> i \<le> j \<Longrightarrow> j < length log \<Longrightarrow>
     \<not> holds_file_nonempty_hash fname h (log ! j)"
proof (induction log fname h i rule: findVersion_loop.induct)
  case (1 log fname h i)
  from "1.prems" have inside: "i < length log" by simp
  from "1.prems"(1) inside have miss: "\<not> holds_file_nonempty_hash fname h (log ! i)"
    by (subst (asm) findVersion_loop.simps) (simp add: findVersion_files_holds split: if_splits)
  with "1.prems"(1) inside have rest: "findVersion_loop log fname h (Suc i) = None"
    by (subst (asm) findVersion_loop.simps) (simp add: findVersion_files_holds)
  show ?case
  proof (cases "j = i")
    case True
    with miss show ?thesis by simp
  next
    case False
    with "1.prems" have "Suc i \<le> j" by simp
    with "1.IH" inside miss rest "1.prems"(3) show ?thesis
      by (simp add: findVersion_files_holds)
  qed
qed

lemma findVersion_loop_Some:
  "findVersion_loop log fname h i = Some v \<Longrightarrow>
     i \<le> versionIndex v \<and> versionIndex v < length log \<and>
     holds_file_nonempty_hash fname h (log ! versionIndex v) \<and>
     vd_timestamp v = timestamp (log ! versionIndex v) \<and>
     (\<forall>j. i \<le> j \<and> j < versionIndex v \<longrightarrow> \<not> holds_file_nonempty_hash fname h (log ! j))"
proof (induction log fname h i rule: findVersion_loop.induct)
  case (1 log fname h i)
  from "1.prems" have inside: "i < length log"
    by (subst (asm) findVersion_loop.simps) (simp split: if_splits)
  show ?case
  proof (cases "holds_file_nonempty_hash fname h (log ! i)")
    case True
    with "1.prems" inside have "v = \<lparr>versionIndex = i, vd_timestamp = timestamp (log ! i)\<rparr>"
      by (subst (asm) findVersion_loop.simps) (simp add: findVersion_files_holds)
    with True inside show ?thesis by auto
  next
    case False
    with "1.prems" inside have rest: "findVersion_loop log fname h (Suc i) = Some v"
      by (subst (asm) findVersion_loop.simps) (simp add: findVersion_files_holds)
    from "1.IH" inside False rest have ih:
      "Suc i \<le> versionIndex v \<and> versionIndex v < length log \<and>
       holds_file_nonempty_hash fname h (log ! versionIndex v) \<and>
       vd_timestamp v = timestamp (log ! versionIndex v) \<and>
       (\<forall>j. Suc i \<le> j \<and> j < versionIndex v \<longrightarrow>
          \<not> holds_file_nonempty_hash fname h (log ! j))"
      by (simp add: findVersion_files_holds)
    have "\<forall>j. i \<le> j \<and> j < versionIndex v \<longrightarrow> \<not> holds_file_nonempty_hash fname h (log ! j)"
    proof (intro allI impI)
      fix j
      assume j: "i \<le> j \<and> j < versionIndex v"
      show "\<not> holds_file_nonempty_hash fname h (log ! j)"
      proof (cases "j = i")
        case True
        with False show ?thesis by simp
      next
        case False
        with j have "Suc i \<le> j \<and> j < versionIndex v" by simp
        with ih show ?thesis by blast
      qed
    qed
    with ih show ?thesis by simp
  qed
qed

lemma holds_file_given_hash:
  "h \<noteq> Some [] \<Longrightarrow> holds_file_nonempty_hash fname h snapshot = holds_file_spec fname h snapshot"
  by (cases h) (simp_all add: holds_file_nonempty_hash_def holds_file_spec_def)

text \<open>
  C5 as amended. \<^verbatim>\<open>findVersion\<close> scans from \<^verbatim>\<open>startIndex\<close> (0 when left out) towards
  older snapshots and returns the index and timestamp of the first snapshot that holds,
  among its upload and omit entries, a file record of the given name and, when a
  non-empty hash is given, of that hash; it returns \<^verbatim>\<open>undefined\<close> when there is none.
  An empty hash is treated as no hash: for every other hash argument the condition is
  the one of the specification.
\<close>

theorem findVersion_first_snapshot:
  "(case findVersion log fname h startIndex of
      None \<Rightarrow>
        (\<forall>j. (case startIndex of None \<Rightarrow> 0 | Some s \<Rightarrow> s) \<le> j \<and> j < length log \<longrightarrow>
           \<not> holds_file_nonempty_hash fname h (log ! j))
    | Some v \<Rightarrow>
        (case startIndex of None \<Rightarrow> 0 | Some s \<Rightarrow> s) \<le> versionIndex v \<and>
        versionIndex v < length log \<and>
        holds_file_nonempty_hash fname h (log ! versionIndex v) \<and>
        vd_timestamp v = timestamp (log ! versionIndex v) \<and>
        (\<forall>j. (case startIndex of None \<Rightarrow> 0 | Some s \<Rightarrow> s) \<le> j \<and> j < versionIndex v \<longrightarrow>
           \<not> holds_file_nonempty_hash fname h (log ! j))) \<and>
   (h \<noteq> Some [] \<longrightarrow>
      (\<forall>snapshot. holds_file_nonempty_hash fname h snapshot = holds_file_spec fname h snapshot))"
proof (cases "findVersion log fname h startIndex")
  case None
  then show ?thesis
    using findVersion_loop_None [of log fname h "case startIndex of None \<Rightarrow> 0 | Some s \<Rightarrow> s"]
    by (simp add: findVersion_def holds_file_given_hash)
next
  case (Some v)
  then show ?thesis
    using findVersion_loop_Some [of log fname h "case startIndex of None \<Rightarrow> 0 | Some s \<Rightarrow> s" v]
    by (simp add: findVersion_def holds_file_given_hash)
qed

theorem findVersion_first_snapshot_witness:
  "findVersion
     [\<lparr>timestamp = 20, upload = [\<lparr>filename = ''a.js'', hash = ''h1''\<rparr>], omit = []\<rparr>,
      \<lparr>timestamp = 10, upload = [\<lparr>filename = ''a.js'', hash = ''h0''\<rparr>], omit = []\<rparr>]
     ''a.js'' None None = Some \<lparr>versionIndex = 0, vd_timestamp = 20\<rparr> \<and>
   holds_file_nonempty_hash ''a.js'' None
     \<lparr>timestamp = 20, upload = [\<lparr>filename = ''a.js'', hash = ''h1''\<rparr>], omit = []\<rparr>"
  using findVersion_first_snapshot
    [where log = "[\<lparr>timestamp = 20, upload = [\<lparr>filename = ''a.js'', hash = ''h1''\<rparr>], omit = []\<rparr>,
          \<lparr>timestamp = 10, upload = [\<lparr>filename = ''a.js'', hash = ''h0''\<rparr>], omit = []\<rparr>]"
       and fname = "''a.js''" and h = None and startIndex = None]
  by (simp add: findVersion_def findVersion_loop.simps hash_falsy_def
      holds_file_nonempty_hash_def)

text \<open>
  The claim as stated fails for the empty hash: \<^verbatim>\<open>findVersion("a.js", "")\<close> returns a
  snapshot that holds no record of hash \<^verbatim>\<open>""\<close>.
\<close>

theorem findVersion_empty_hash_counterexample:
  "findVersion
     [\<lparr>timestamp = 20, upload = [\<lparr>filename = ''a.js'', hash = ''h1''\<rparr>], omit = []\<rparr>]
     ''a.js'' (Some []) None = Some \<lparr>versionIndex = 0, vd_timestamp = 20\<rparr> \<and>
   \<not> holds_file_spec ''a.js'' (Some [])
     \<lparr>timestamp = 20, upload = [\<lparr>filename = ''a.js'', hash = ''h1''\<rparr>], omit = []\<rparr>"
  by (simp add: findVersion_def findVersion_loop.simps hash_falsy_def holds_file_spec_def)

section \<open>Properties of initCleanStatus\<close>

lemma holds_file_member:
  "f \<in> set (upload snapshot @ omit snapshot) \<Longrightarrow>
     holds_file_nonempty_hash (filename f) None snapshot"
  by (auto simp: holds_file_nonempty_hash_def list_ex_iff)

lemma findVersion_candidate:
  assumes "i < length log" and "f \<in> set (upload (log ! i) @ omit (log ! i))"
  shows "\<exists>v. findVersion log (filename f) None None = Some v \<and> versionIndex v \<le> i"
proof (cases "findVersion_loop log (filename f) None 0")
  case None
  from findVersion_loop_None [OF None, of i] assms holds_file_member [OF assms(2)]
  show ?thesis by simp
next
  case (Some v)
  from findVersion_loop_Some [OF Some] have
    "\<forall>j. j < versionIndex v \<longrightarrow> \<not> holds_file_nonempty_hash (filename f) None (log ! j)"
    by simp
  with holds_file_member [OF assms(2)] have "\<not> i < versionIndex v" by blast
  with Some show ?thesis by (simp add: findVersion_def)
qed

lemma cleanFiles_filter:
  "\<forall>f \<in> set files. findVersion log (filename f) None None \<noteq> None \<Longrightarrow>
   cleanFiles log e files cleanStatus =
     Inr (cleanStatus @
       filter (\<lambda>f. case findVersion log (filename f) None None of
                     None \<Rightarrow> False | Some v \<Rightarrow> e \<le> versionIndex v) files)"
proof (induction files arbitrary: cleanStatus)
  case Nil
  show ?case by simp
next
  case (Cons f files)
  from Cons.prems obtain v where v: "findVersion log (filename f) None None = Some v" by auto
  from Cons.prems have "\<forall>f \<in> set files. findVersion log (filename f) None None \<noteq> None" by simp
  from Cons.IH [OF this] v show ?case by simp
qed

lemma cleanFiles_never_undefined:
  "\<forall>f \<in> set files. findVersion log (filename f) None None \<noteq> None \<Longrightarrow>
   cleanFiles log e files cleanStatus \<noteq> Inl TypeError_versionIndex_of_undefined"
  by (simp add: cleanFiles_filter)

text \<open>The files the outer loop hands to the inner one at index \<open>i\<close> of \<open>arr\<close>.\<close>

lemma cleanVersions_concat:
  assumes "\<forall>v \<in> set arr. \<forall>f \<in> set (upload v @ omit v).
      findVersion log (filename f) None None \<noteq> None"
  shows "index \<le> length arr \<Longrightarrow>
   cleanVersions log e (drop index arr) index arr cleanStatus =
     Inr (cleanStatus @
       concat (map (\<lambda>i.
           filter (\<lambda>f. case findVersion log (filename f) None None of
                         None \<Rightarrow> False | Some v \<Rightarrow> e \<le> versionIndex v)
             (upload (arr ! i) @ (if Suc i = length arr then omit (arr ! i) else [])))
         [index..<length arr]))"
proof (induction "length arr - index" arbitrary: index cleanStatus)
  case 0
  then show ?case by simp
next
  case (Suc n)
  then have inside: "index < length arr" by simp
  then have split: "drop index arr = arr ! index # drop (Suc index) arr"
    by (simp add: Cons_nth_drop_Suc)
  have last: "(index = length arr - 1) = (Suc index = length arr)"
    using inside by auto
  let ?files = "upload (arr ! index) @ (if Suc index = length arr then omit (arr ! index) else [])"
  from inside have "arr ! index \<in> set arr" by simp
  with assms have "\<forall>f \<in> set ?files. findVersion log (filename f) None None \<noteq> None"
    by auto
  note files = cleanFiles_filter [OF this, of e cleanStatus]
  from Suc.hyps(2) have n: "n = length arr - Suc index" by simp
  from inside have "Suc index \<le> length arr" by simp
  note rest = Suc.hyps(1) [OF n this]
  from inside have upt: "[index..<length arr] = index # [Suc index..<length arr]"
    by (simp add: upt_conv_Cons)
  let ?P = "\<lambda>f. case findVersion log (filename f) None None of
                  None \<Rightarrow> False | Some v \<Rightarrow> e \<le> versionIndex v"
  have "cleanVersions log e (drop index arr) index arr cleanStatus =
      (case cleanFiles log e ?files cleanStatus of
         Inl err \<Rightarrow> Inl err
       | Inr c \<Rightarrow> cleanVersions log e (drop (Suc index) arr) (Suc index) arr c)"
    unfolding split by (simp only: cleanVersions.simps Let_def last append_Nil)
  also have "\<dots> = cleanVersions log e (drop (Suc index) arr) (Suc index) arr
      (cleanStatus @ filter ?P ?files)"
    by (simp only: files sum.case)
  also have "\<dots> = Inr ((cleanStatus @ filter ?P ?files) @
      concat (map (\<lambda>i. filter ?P
          (upload (arr ! i) @ (if Suc i = length arr then omit (arr ! i) else [])))
        [Suc index..<length arr]))"
    by (rule rest)
  also have "\<dots> = Inr (cleanStatus @
      concat (map (\<lambda>i. filter ?P
          (upload (arr ! i) @ (if Suc i = length arr then omit (arr ! i) else [])))
        [index..<length arr]))"
    unfolding upt by (simp only: list.map concat.simps append_assoc)
  finally show ?case .
qed


lemma getVersions_from: "getVersions log (Some (int e)) None = drop e log"
  by (simp add: getVersions_def Array_slice_def Let_def min_def)

lemma findVersion_in_log:
  assumes "v \<in> set log" and "f \<in> set (upload v @ omit v)"
  shows "findVersion log (filename f) None None \<noteq> None"
proof -
  from assms(1) obtain i where "i < length log" and "log ! i = v"
    by (auto simp: in_set_conv_nth)
  with findVersion_candidate [of i log f] assms(2) show ?thesis by auto
qed

lemma cleanVersions_of_tail:
  "cleanVersions log e (drop k log) 0 (drop k log) cleanStatus =
     Inr (cleanStatus @
       concat (map (\<lambda>i.
           filter (\<lambda>f. case findVersion log (filename f) None None of
                         None \<Rightarrow> False | Some v \<Rightarrow> e \<le> versionIndex v)
             (upload (drop k log ! i) @
                (if Suc i = length (drop k log) then omit (drop k log ! i) else [])))
         [0..<length (drop k log)]))"
proof -
  have "\<forall>v \<in> set (drop k log). \<forall>f \<in> set (upload v @ omit v).
      findVersion log (filename f) None None \<noteq> None"
    using findVersion_in_log [of _ log] in_set_dropD [of _ k log] by blast
  from cleanVersions_concat [OF this, of 0 e cleanStatus] show ?thesis by simp
qed

lemma candidates_of_tail:
  assumes "k \<le> length log"
  shows "concat (map (\<lambda>i. filter P
             (upload (drop k log ! i) @
                (if Suc i = length (drop k log) then omit (drop k log ! i) else [])))
           [0..<length (drop k log)]) =
         filter P (candidates_spec log k)"
proof -
  have shift: "[k..<length log] = map (\<lambda>i. i + k) [0..<length log - k]"
    using assms by (simp add: map_add_upt)
  have "filter P (candidates_spec log k) =
      concat (map (\<lambda>i. filter P
          (upload (log ! (i + k)) @ (if Suc (i + k) = length log then omit (log ! (i + k)) else [])))
        [0..<length log - k])"
    unfolding candidates_spec_def shift by (simp add: filter_concat comp_def)
  also have "\<dots> = concat (map (\<lambda>i. filter P
             (upload (drop k log ! i) @
                (if Suc i = length (drop k log) then omit (drop k log ! i) else [])))
           [0..<length (drop k log)])"
  proof -
    have pointwise: "\<And>i. i \<in> set [0..<length log - k] \<Longrightarrow>
        filter P (upload (log ! (i + k)) @
          (if Suc (i + k) = length log then omit (log ! (i + k)) else [])) =
        filter P (upload (drop k log ! i) @
          (if Suc i = length (drop k log) then omit (drop k log ! i) else []))"
      using assms by (auto simp: add.commute)
    have "map (\<lambda>i. filter P (upload (log ! (i + k)) @
              (if Suc (i + k) = length log then omit (log ! (i + k)) else [])))
            [0..<length log - k] =
          map (\<lambda>i. filter P (upload (drop k log ! i) @
              (if Suc i = length (drop k log) then omit (drop k log ! i) else [])))
            [0..<length log - k]"
      by (rule map_cong [OF refl]) (rule pointwise)
    then show ?thesis by (simp only: length_drop)
  qed
  finally show ?thesis by simp
qed

lemma initCleanStatus_deadline:
  assumes "time expire = None \<or> log \<noteq> []"
  shows "(case time expire of
            Some expireTime \<Rightarrow>
              (case getLastVersion log of
                 None \<Rightarrow> Inl TypeError_timestamp_of_undefined
               | Some lv \<Rightarrow> Inr (Some (timestamp lv - expireTime)))
          | None \<Rightarrow> Inr None) = Inr (deadline_spec log expire)"
proof (cases "time expire")
  case None
  then show ?thesis by (simp add: deadline_spec_def)
next
  case (Some t)
  with assms obtain r rs where "log = r # rs" by (cases log) auto
  with Some show ?thesis by (simp add: deadline_spec_def getLastVersion_def)
qed

text \<open>
  C2. Whenever the log has a last version (the handler appends the current snapshot
  before it calls \<^verbatim>\<open>initCleanStatus\<close>) or no expiry time is configured,
  \<^verbatim>\<open>initCleanStatus\<close> appends to the clean list exactly the clean set of the
  specification: the deadline is the last version's timestamp minus the configured time
  when that is a number, the expiry index is \<^verbatim>\<open>getFirstExpireVersionIndex\<close> of the
  configured versions and that deadline, the candidates are the upload entries of every
  snapshot from the expiry index on plus the omit entries of the last snapshot only, and
  a candidate is kept if and only if \<^verbatim>\<open>findVersion\<close> of its name is at or beyond the
  expiry index.
\<close>

theorem initCleanStatus_clean_set:
  assumes "time expire = None \<or> log \<noteq> []"
  shows "initCleanStatus log expire st =
           Inr (st\<lparr>st_clean := st_clean st @ cleanSet_spec log expire\<rparr>)"
proof -
  let ?e = "expireIndex_spec log expire"
  have bound: "?e \<le> length log"
    using getFirstExpireVersionIndex_loop_bounds [of 0 log "versions expire" "deadline_spec log expire"]
    by (simp add: expireIndex_spec_def getFirstExpireVersionIndex_def)
  have "initCleanStatus log expire st =
      (case cleanVersions log ?e (drop ?e log) 0 (drop ?e log) (st_clean st) of
         Inl err \<Rightarrow> Inl err
       | Inr cleanStatus \<Rightarrow> Inr (st\<lparr>st_clean := cleanStatus\<rparr>))"
    unfolding initCleanStatus_def Let_def initCleanStatus_deadline [OF assms]
    by (simp add: getVersions_from expireIndex_spec_def)
  also have "\<dots> = Inr (st\<lparr>st_clean := st_clean st @ cleanSet_spec log expire\<rparr>)"
    unfolding cleanVersions_of_tail candidates_of_tail [OF bound] cleanSet_spec_def
    by simp
  finally show ?thesis .
qed


theorem initCleanStatus_clean_set_witness:
  "initCleanStatus
      [\<lparr>timestamp = 30, upload = [\<lparr>filename = ''c.js'', hash = ''h3''\<rparr>],
          omit = [\<lparr>filename = ''a.js'', hash = ''h1''\<rparr>]\<rparr>,
       \<lparr>timestamp = 20, upload = [\<lparr>filename = ''b.js'', hash = ''h2''\<rparr>],
          omit = [\<lparr>filename = ''a.js'', hash = ''h1''\<rparr>]\<rparr>,
       \<lparr>timestamp = 10,
          upload = [\<lparr>filename = ''a.js'', hash = ''h1''\<rparr>, \<lparr>filename = ''d.js'', hash = ''h4''\<rparr>],
          omit = []\<rparr>]
      \<lparr>time = Some 15, versions = Some 1\<rparr> new_uploadStatus =
    Inr (new_uploadStatus\<lparr>st_clean := [\<lparr>filename = ''d.js'', hash = ''h4''\<rparr>]\<rparr>)"
proof -
  have "cleanSet_spec
      [\<lparr>timestamp = 30, upload = [\<lparr>filename = ''c.js'', hash = ''h3''\<rparr>],
          omit = [\<lparr>filename = ''a.js'', hash = ''h1''\<rparr>]\<rparr>,
       \<lparr>timestamp = 20, upload = [\<lparr>filename = ''b.js'', hash = ''h2''\<rparr>],
          omit = [\<lparr>filename = ''a.js'', hash = ''h1''\<rparr>]\<rparr>,
       \<lparr>timestamp = 10,
          upload = [\<lparr>filename = ''a.js'', hash = ''h1''\<rparr>, \<lparr>filename = ''d.js'', hash = ''h4''\<rparr>],
          omit = []\<rparr>]
      \<lparr>time = Some 15, versions = Some 1\<rparr> = [\<lparr>filename = ''d.js'', hash = ''h4''\<rparr>]"
    by (simp add: cleanSet_spec_def candidates_spec_def expireIndex_spec_def deadline_spec_def
        getFirstExpireVersionIndex_def getFirstExpireVersionIndex_loop.simps expireTest_def
        findVersion_def findVersion_loop.simps hash_falsy_def upt_rec)
  with initCleanStatus_clean_set
    [of "\<lparr>time = Some 15, versions = Some 1\<rparr>"
      "[\<lparr>timestamp = 30, upload = [\<lparr>filename = ''c.js'', hash = ''h3''\<rparr>],
          omit = [\<lparr>filename = ''a.js'', hash = ''h1''\<rparr>]\<rparr>,
       \<lparr>timestamp = 20, upload = [\<lparr>filename = ''b.js'', hash = ''h2''\<rparr>],
          omit = [\<lparr>filename = ''a.js'', hash = ''h1''\<rparr>]\<rparr>,
       \<lparr>timestamp = 10,
          upload = [\<lparr>filename = ''a.js'', hash = ''h1''\<rparr>, \<lparr>filename = ''d.js'', hash = ''h4''\<rparr>],
          omit = []\<rparr>]" new_uploadStatus]
  show ?thesis by (simp add: new_uploadStatus_def)
qed

text \<open>
  C9. Every file entry of a snapshot of the log is found by \<^verbatim>\<open>findVersion\<close> of its name,
  at an index no greater than the snapshot's own; the candidates of \<^verbatim>\<open>initCleanStatus\<close>
  are such entries, so reading \<^verbatim>\<open>.versionIndex\<close> of the result never meets
  \<^verbatim>\<open>undefined\<close>.
\<close>

theorem findVersion_defined_for_candidates:
  "(\<forall>i f. i < length log \<and> f \<in> set (upload (log ! i) @ omit (log ! i)) \<longrightarrow>
      (\<exists>v. findVersion log (filename f) None None = Some v \<and> versionIndex v \<le> i)) \<and>
   initCleanStatus log expire st \<noteq> Inl TypeError_versionIndex_of_undefined"
proof
  show "\<forall>i f. i < length log \<and> f \<in> set (upload (log ! i) @ omit (log ! i)) \<longrightarrow>
      (\<exists>v. findVersion log (filename f) None None = Some v \<and> versionIndex v \<le> i)"
    using findVersion_candidate by blast
next
  show "initCleanStatus log expire st \<noteq> Inl TypeError_versionIndex_of_undefined"
  proof (cases "time expire = None \<or> log \<noteq> []")
    case True
    let ?e = "getFirstExpireVersionIndex log (versions expire) (deadline_spec log expire)"
    have "initCleanStatus log expire st =
        (case cleanVersions log ?e (drop ?e log) 0 (drop ?e log) (st_clean st) of
           Inl err \<Rightarrow> Inl err
         | Inr cleanStatus \<Rightarrow> Inr (st\<lparr>st_clean := cleanStatus\<rparr>))"
      unfolding initCleanStatus_def Let_def initCleanStatus_deadline [OF True]
      by (simp add: getVersions_from)
    then show ?thesis unfolding cleanVersions_of_tail by simp
  next
    case False
    then obtain t where "time expire = Some t" and "log = []" by auto
    then show ?thesis by (simp add: initCleanStatus_def getLastVersion_def)
  qed
qed

theorem findVersion_defined_for_candidates_witness:
  "(\<exists>v. findVersion
      [\<lparr>timestamp = 30, upload = [\<lparr>filename = ''c.js'', hash = ''h3''\<rparr>],
          omit = [\<lparr>filename = ''a.js'', hash = ''h1''\<rparr>]\<rparr>,
       \<lparr>timestamp = 20, upload = [\<lparr>filename = ''b.js'', hash = ''h2''\<rparr>],
          omit = [\<lparr>filename = ''a.js'', hash = ''h1''\<rparr>]\<rparr>,
       \<lparr>timestamp = 10,
          upload = [\<lparr>filename = ''a.js'', hash = ''h1''\<rparr>, \<lparr>filename = ''d.js'', hash = ''h4''\<rparr>],
          omit = []\<rparr>]
      ''a.js'' None None = Some v \<and> versionIndex v \<le> 2) \<and>
   initCleanStatus
      [\<lparr>timestamp = 30, upload = [\<lparr>filename = ''c.js'', hash = ''h3''\<rparr>],
          omit = [\<lparr>filename = ''a.js'', hash = ''h1''\<rparr>]\<rparr>,
       \<lparr>timestamp = 20, upload = [\<lparr>filename = ''b.js'', hash = ''h2''\<rparr>],
          omit = [\<lparr>filename = ''a.js'', hash = ''h1''\<rparr>]\<rparr>,
       \<lparr>timestamp = 10,
          upload = [\<lparr>filename = ''a.js'', hash = ''h1''\<rparr>, \<lparr>filename = ''d.js'', hash = ''h4''\<rparr>],
          omit = []\<rparr>]
      \<lparr>time = Some 15, versions = Some 1\<rparr> new_uploadStatus \<noteq>
     Inl TypeError_versionIndex_of_undefined"
proof -
  note inst = findVersion_defined_for_candidates
    [of "[\<lparr>timestamp = 30, upload = [\<lparr>filename = ''c.js'', hash = ''h3''\<rparr>],
          omit = [\<lparr>filename = ''a.js'', hash = ''h1''\<rparr>]\<rparr>,
       \<lparr>timestamp = 20, upload = [\<lparr>filename = ''b.js'', hash = ''h2''\<rparr>],
          omit = [\<lparr>filename = ''a.js'', hash = ''h1''\<rparr>]\<rparr>,
       \<lparr>timestamp = 10,
          upload = [\<lparr>filename = ''a.js'', hash = ''h1''\<rparr>, \<lparr>filename = ''d.js'', hash = ''h4''\<rparr>],
          omit = []\<rparr>]" "\<lparr>time = Some 15, versions = Some 1\<rparr>" new_uploadStatus]
  from inst have "\<forall>i f. i < length
      [\<lparr>timestamp = 30, upload = [\<lparr>filename = ''c.js'', hash = ''h3''\<rparr>],
          omit = [\<lparr>filename = ''a.js'', hash = ''h1''\<rparr>]\<rparr>,
       \<lparr>timestamp = 20, upload = [\<lparr>filename = ''b.js'', hash = ''h2''\<rparr>],
          omit = [\<lparr>filename = ''a.js'', hash = ''h1''\<rparr>]\<rparr>,
       \<lparr>timestamp = 10,
          upload = [\<lparr>filename = ''a.js'', hash = ''h1''\<rparr>, \<lparr>filename = ''d.js'', hash = ''h4''\<rparr>],
          omit = []\<rparr>] \<and>
      f \<in> set (upload ([\<lparr>timestamp = 30, upload = [\<lparr>filename = ''c.js'', hash = ''h3''\<rparr>],
          omit = [\<lparr>filename = ''a.js'', hash = ''h1''\<rparr>]\<rparr>,
       \<lparr>timestamp = 20, upload = [\<lparr>filename = ''b.js'', hash = ''h2''\<rparr>],
          omit = [\<lparr>filename = ''a.js'', hash = ''h1''\<rparr>]\<rparr>,
       \<lparr>timestamp = 10,
          upload = [\<lparr>filename = ''a.js'', hash = ''h1''\<rparr>, \<lparr>filename = ''d.js'', hash = ''h4''\<rparr>],
          omit = []\<rparr>] ! i) @
                omit ([\<lparr>timestamp = 30, upload = [\<lparr>filename = ''c.js'', hash = ''h3''\<rparr>],
          omit = [\<lparr>filename = ''a.js'', hash = ''h1''\<rparr>]\<rparr>,
       \<lparr>timestamp = 20, upload = [\<lparr>filename = ''b.js'', hash = ''h2''\<rparr>],
          omit = [\<lparr>filename = ''a.js'', hash = ''h1''\<rparr>]\<rparr>,
       \<lparr>timestamp = 10,
          upload = [\<lparr>filename = ''a.js'', hash = ''h1''\<rparr>, \<lparr>filename = ''d.js'', hash = ''h4''\<rparr>],
          omit = []\<rparr>] ! i)) \<longrightarrow>
      (\<exists>v. findVersion [\<lparr>timestamp = 30, upload = [\<lparr>filename = ''c.js'', hash = ''h3''\<rparr>],
          omit = [\<lparr>filename = ''a.js'', hash = ''h1''\<rparr>]\<rparr>,
       \<lparr>timestamp = 20, upload = [\<lparr>filename = ''b.js'', hash = ''h2''\<rparr>],
          omit = [\<lparr>filename = ''a.js'', hash = ''h1''\<rparr>]\<rparr>,
       \<lparr>timestamp = 10,
          upload = [\<lparr>filename = ''a.js'', hash = ''h1''\<rparr>, \<lparr>filename = ''d.js'', hash = ''h4''\<rparr>],
          omit = []\<rparr>] (filename f) None None = Some v \<and> versionIndex v \<le> i)"
    by (rule conjunct1)
  then have "2 < length
      [\<lparr>timestamp = 30, upload = [\<lparr>filename = ''c.js'', hash = ''h3''\<rparr>],
          omit = [\<lparr>filename = ''a.js'', hash = ''h1''\<rparr>]\<rparr>,
       \<lparr>timestamp = 20, upload = [\<lparr>filename = ''b.js'', hash = ''h2''\<rparr>],
          omit = [\<lparr>filename = ''a.js'', hash = ''h1''\<rparr>]\<rparr>,
       \<lparr>timestamp = 10,
          upload = [\<lparr>filename = ''a.js'', hash = ''h1''\<rparr>, \<lparr>filename = ''d.js'', hash = ''h4''\<rparr>],
          omit = []\<rparr>] \<and>
      \<lparr>filename = ''a.js'', hash = ''h1''\<rparr> \<in> set (upload ([\<lparr>timestamp = 30, upload = [\<lparr>filename = ''c.js'', hash = ''h3''\<rparr>],
          omit = [\<lparr>filename = ''a.js'', hash = ''h1''\<rparr>]\<rparr>,
       \<lparr>timestamp = 20, upload = [\<lparr>filename = ''b.js'', hash = ''h2''\<rparr>],
          omit = [\<lparr>filename = ''a.js'', hash = ''h1''\<rparr>]\<rparr>,
       \<lparr>timestamp = 10,
          upload = [\<lparr>filename = ''a.js'', hash = ''h1''\<rparr>, \<lparr>filename = ''d.js'', hash = ''h4''\<rparr>],
          omit = []\<rparr>] ! 2) @
                omit ([\<lparr>timestamp = 30, upload = [\<lparr>filename = ''c.js'', hash = ''h3''\<rparr>],
          omit = [\<lparr>filename = ''a.js'', hash = ''h1''\<rparr>]\<rparr>,
       \<lparr>timestamp = 20, upload = [\<lparr>filename = ''b.js'', hash = ''h2''\<rparr>],
          omit = [\<lparr>filename = ''a.js'', hash = ''h1''\<rparr>]\<rparr>,
       \<lparr>timestamp = 10,
          upload = [\<lparr>filename = ''a.js'', hash = ''h1''\<rparr>, \<lparr>filename = ''d.js'', hash = ''h4''\<rparr>],
          omit = []\<rparr>] ! 2)) \<longrightarrow>
      (\<exists>v. findVersion [\<lparr>timestamp = 30, upload = [\<lparr>filename = ''c.js'', hash = ''h3''\<rparr>],
          omit = [\<lparr>filename = ''a.js'', hash = ''h1''\<rparr>]\<rparr>,
       \<lparr>timestamp = 20, upload = [\<lparr>filename = ''b.js'', hash = ''h2''\<rparr>],
          omit = [\<lparr>filename = ''a.js'', hash = ''h1''\<rparr>]\<rparr>,
       \<lparr>timestamp = 10,
          upload = [\<lparr>filename = ''a.js'', hash = ''h1''\<rparr>, \<lparr>filename = ''d.js'', hash = ''h4''\<rparr>],
          omit = []\<rparr>] (filename  \<lparr>filename = ''a.js'', hash = ''h1''\<rparr>) None None = Some v \<and> versionIndex v \<le> 2)"
    by blast
  then have "\<exists>v. findVersion [\<lparr>timestamp = 30, upload = [\<lparr>filename = ''c.js'', hash = ''h3''\<rparr>],
          omit = [\<lparr>filename = ''a.js'', hash = ''h1''\<rparr>]\<rparr>,
       \<lparr>timestamp = 20, upload = [\<lparr>filename = ''b.js'', hash = ''h2''\<rparr>],
          omit = [\<lparr>filename = ''a.js'', hash = ''h1''\<rparr>]\<rparr>,
       \<lparr>timestamp = 10,
          upload = [\<lparr>filename = ''a.js'', hash = ''h1''\<rparr>, \<lparr>filename = ''d.js'', hash = ''h4''\<rparr>],
          omit = []\<rparr>] ''a.js'' None None = Some v \<and> versionIndex v \<le> 2"
    by simp
  with inst show ?thesis by blast
qed

section \<open>Properties of hashFile\<close>

lemma BUFFER_LENGTH_OF_4M_value: "BUFFER_LENGTH_OF_4M = 4 * 1024 * 1024"
  by (simp add: BUFFER_LENGTH_OF_4M_def)

lemma chunks_spec_Nil: "chunks_spec n [] = []"
  by (cases n) (simp_all add: chunks_spec_def)

lemma chunk_count_step:
  assumes "0 < n" and "xs \<noteq> []"
  shows "(length xs + n - 1) div n = Suc ((length (drop n xs) + n - 1) div n)"
proof (cases "length xs \<le> n")
  case True
  from assms obtain k where "length xs = Suc k" by (cases xs) auto
  with True assms(1) have "n * 1 \<le> length xs + n - 1" and "length xs + n - 1 < n * Suc 1"
    by simp_all
  then have "(length xs + n - 1) div n = 1"
    by (rule div_nat_eqI)
  moreover from True assms(1) have "(length (drop n xs) + n - 1) div n = 0" by simp
  ultimately show ?thesis by simp
next
  case False
  then have "length xs + n - 1 = (length xs - n + n - 1) + n" using assms(1) by simp
  then have "(length xs + n - 1) div n = Suc ((length xs - n + n - 1) div n)"
    using assms(1) by (simp only: div_add_self2)
  then show ?thesis by simp
qed

lemma chunks_spec_step:
  assumes "0 < n" and "xs \<noteq> []"
  shows "chunks_spec n xs = take n xs # chunks_spec n (drop n xs)"
proof -
  let ?m = "(length (drop n xs) + n - 1) div n"
  have "chunks_spec n xs = map (\<lambda>k. take n (drop (k * n) xs)) [0..<Suc ?m]"
    unfolding chunks_spec_def chunk_count_step [OF assms] ..
  also have "[0..<Suc ?m] = 0 # map Suc [0..<?m]"
    by (simp add: upt_conv_Cons map_Suc_upt del: upt_Suc)
  also have "map (\<lambda>k. take n (drop (k * n) xs)) (0 # map Suc [0..<?m]) =
      take n xs # map (\<lambda>k. take n (drop (k * n) (drop n xs))) [0..<?m]"
    by (simp add: comp_def add.commute)
  finally show ?thesis by (simp add: chunks_spec_def)
qed

lemma hashFile_loop_chunks:
  "hashFile_loop sha1 buf chunkHashes =
     chunkHashes @ map sha1 (chunks_spec BUFFER_LENGTH_OF_4M buf)"
proof (induction sha1 buf chunkHashes rule: hashFile_loop.induct)
  case (1 sha1 buf chunkHashes)
  show ?case
  proof (cases "buf = []")
    case True
    then show ?thesis
      by (subst hashFile_loop.simps) (simp add: chunks_spec_Nil)
  next
    case False
    have pos: "0 < BUFFER_LENGTH_OF_4M" by (simp add: BUFFER_LENGTH_OF_4M_def)
    from False have "length buf \<noteq> 0" by simp
    from "1.IH" [OF this] False show ?thesis
      by (subst hashFile_loop.simps)
         (simp add: chunks_spec_step [OF pos False] hashChunk_def)
  qed
qed

lemma replace_slash_plus_urlsafe: "replace_slash_plus s = map urlsafe_spec s"
  by (auto simp: replace_slash_plus_def replace_match_def urlsafe_spec_def)

lemma concat_chunks_spec: "0 < n \<Longrightarrow> concat (chunks_spec n xs) = xs"
proof (induction "length xs" arbitrary: xs rule: less_induct)
  case less
  show ?case
  proof (cases "xs = []")
    case True
    then show ?thesis by (simp add: chunks_spec_Nil)
  next
    case False
    with less.prems have "length (drop n xs) < length xs" by simp
    from less.hyps [OF this less.prems] show ?thesis
      by (simp add: chunks_spec_step [OF less.prems False])
  qed
qed

text \<open>
  C3. For every buffer, whatever the digest and the base64 encoding are: up to
  4 * 1024 * 1024 bytes \<^verbatim>\<open>hashFile\<close> encodes the byte 0x16 followed by the digest of the
  whole content; beyond, it encodes the byte 0x96 followed by the digest of the
  concatenated digests of the consecutive 4 MiB chunks of the content (which make up the
  content again). The encoding is the base64 encoding with \<^verbatim>\<open>+\<close> replaced by \<^verbatim>\<open>-\<close>,
  \<^verbatim>\<open>/\<close> by \<^verbatim>\<open>_\<close>, and every other character kept.
\<close>

theorem hashFile_two_modes:
  "hashFile sha1 base64 buf =
     map urlsafe_spec
       (base64
          (if length buf \<le> 4 * 1024 * 1024 then 0x16 # sha1 buf
           else 0x96 # sha1 (concat (map sha1 (chunks_spec (4 * 1024 * 1024) buf))))) \<and>
   concat (chunks_spec (4 * 1024 * 1024) buf) = buf"
  by (simp add: hashFile_def hashFile_loop_chunks replace_slash_plus_urlsafe hashChunk_def
      BUFFER_LENGTH_OF_4M_value concat_chunks_spec)


theorem hashFile_two_modes_witness:
  "hashFile (\<lambda>b. [of_nat (length b)]) (\<lambda>bs. if bs = [0x96, 2] then ''+/a='' else ''single'')
     (replicate (4 * 1024 * 1024 + 1) 0) = ''-_a='' \<and>
   hashFile (\<lambda>b. [of_nat (length b)]) (\<lambda>bs. if bs = [0x16, 3] then ''A+/B'' else ''chunked'')
     [1, 2, 3] = ''A-_B''"
  using hashFile_two_modes
    [of "\<lambda>b. [of_nat (length b)]" "\<lambda>bs. if bs = [0x96, 2] then ''+/a='' else ''single''"
      "replicate (4 * 1024 * 1024 + 1) 0"]
    hashFile_two_modes
    [of "\<lambda>b. [of_nat (length b)]" "\<lambda>bs. if bs = [0x16, 3] then ''A+/B'' else ''chunked''"
      "[1, 2, 3]"]
  by (simp add: hashFile_def hashFile_loop.simps hashChunk_def BUFFER_LENGTH_OF_4M_def
      replace_slash_plus_def replace_match_def)

section \<open>Properties of initUploadStatus\<close>

lemma find_remote_match:
  "find (\<lambda>item. filename item = u) remoteFiles = remote_match_spec remoteFiles u"
  by (induction remoteFiles) (auto simp: remote_match_spec_def)

lemma remote_match_spec_None:
  "(remote_match_spec remoteFiles u = None) = (\<not> (\<exists>r \<in> set remoteFiles. filename r = u))"
  by (induction remoteFiles) (auto simp: remote_match_spec_def)

lemma remote_match_spec_Some:
  "remote_match_spec remoteFiles u = Some r \<Longrightarrow> r \<in> set remoteFiles \<and> filename r = u"
  by (induction remoteFiles) (auto simp: remote_match_spec_def split: if_splits)


text \<open>One step of the loop, by the bucket of the file's log entry.\<close>

lemma diffLocalFiles_Cons:
  "diffLocalFiles relative remoteFiles (file # files) st =
     diffLocalFiles relative remoteFiles files
       (case classify_spec remoteFiles (logItem relative file) of
          Omit \<Rightarrow> st\<lparr>st_omit := st_omit st @ [logItem relative file]\<rparr>
        | Upload \<Rightarrow> st\<lparr>st_upload := st_upload st @ [logItem relative file]\<rparr>
        | Overwrite \<Rightarrow> st\<lparr>st_overwrite := st_overwrite st @ [logItem relative file]\<rparr>)"
  by (cases "remote_match_spec remoteFiles (filePath2Uri (relative (filePath file)))")
     (simp_all add: find_remote_match classify_spec_def logItem_def)

lemma diffLocalFiles_omit:
  "st_omit (diffLocalFiles relative remoteFiles files st) =
     st_omit st @ filter (\<lambda>i. classify_spec remoteFiles i = Omit) (map (logItem relative) files)"
proof (induction files arbitrary: st)
  case Nil
  show ?case by simp
next
  case (Cons f fs)
  show ?case
    unfolding diffLocalFiles_Cons Cons.IH
    by (cases "classify_spec remoteFiles (logItem relative f)") simp_all
qed

lemma diffLocalFiles_upload:
  "st_upload (diffLocalFiles relative remoteFiles files st) =
     st_upload st @ filter (\<lambda>i. classify_spec remoteFiles i = Upload) (map (logItem relative) files)"
proof (induction files arbitrary: st)
  case Nil
  show ?case by simp
next
  case (Cons f fs)
  show ?case
    unfolding diffLocalFiles_Cons Cons.IH
    by (cases "classify_spec remoteFiles (logItem relative f)") simp_all
qed

lemma diffLocalFiles_overwrite:
  "st_overwrite (diffLocalFiles relative remoteFiles files st) =
     st_overwrite st @
       filter (\<lambda>i. classify_spec remoteFiles i = Overwrite) (map (logItem relative) files)"
proof (induction files arbitrary: st)
  case Nil
  show ?case by simp
next
  case (Cons f fs)
  show ?case
    unfolding diffLocalFiles_Cons Cons.IH
    by (cases "classify_spec remoteFiles (logItem relative f)") simp_all
qed





















text \<open>
  C8. When every local file has a remote file of its normalized name and the remote
  files of that name have its hash (remote names are object keys, so there is one such
  file), the loop of lines 292-313, started with empty buckets, leaves \<^verbatim>\<open>upload\<close> and
  \<^verbatim>\<open>overwrite\<close> empty and puts every local file into \<^verbatim>\<open>omit\<close>.
\<close>

theorem diffLocalFiles_unchanged:
  assumes "\<forall>f \<in> set localFiles.
      (\<exists>r \<in> set remoteFiles. filename r = filename (logItem relative f)) \<and>
      (\<forall>r \<in> set remoteFiles. filename r = filename (logItem relative f) \<longrightarrow> hash r = fileHash f)"
  shows "st_upload (diffLocalFiles relative remoteFiles localFiles
             (new_uploadStatus\<lparr>st_remote := remoteFiles\<rparr>)) = [] \<and>
         st_overwrite (diffLocalFiles relative remoteFiles localFiles
             (new_uploadStatus\<lparr>st_remote := remoteFiles\<rparr>)) = [] \<and>
         st_omit (diffLocalFiles relative remoteFiles localFiles
             (new_uploadStatus\<lparr>st_remote := remoteFiles\<rparr>)) = map (logItem relative) localFiles"
proof -
  have all_omit: "classify_spec remoteFiles i = Omit" if "i \<in> set (map (logItem relative) localFiles)" for i
  proof -
    from that obtain f where f: "f \<in> set localFiles" and i: "i = logItem relative f" by auto
    from assms f have ex: "\<exists>r \<in> set remoteFiles. filename r = filename (logItem relative f)"
      and eq: "\<forall>r \<in> set remoteFiles. filename r = filename (logItem relative f) \<longrightarrow> hash r = fileHash f"
      by blast+
    from ex have "remote_match_spec remoteFiles (filename i) \<noteq> None"
      unfolding i by (simp only: remote_match_spec_None not_not)
    then obtain r where r: "remote_match_spec remoteFiles (filename i) = Some r" by blast
    from remote_match_spec_Some [OF r] eq have "hash r = fileHash f" unfolding i by blast
    then have "hash r = hash i" unfolding i by (simp add: logItem_def)
    with r show ?thesis by (simp add: classify_spec_def)
  qed
  have omit: "filter (\<lambda>i. classify_spec remoteFiles i = Omit) (map (logItem relative) localFiles) =
      map (logItem relative) localFiles"
    by (rule filter_True, intro ballI) (rule all_omit)
  have upload: "filter (\<lambda>i. classify_spec remoteFiles i = Upload) (map (logItem relative) localFiles) = []"
    unfolding filter_empty_conv using all_omit by (intro ballI) simp
  have overwrite: "filter (\<lambda>i. classify_spec remoteFiles i = Overwrite) (map (logItem relative) localFiles) = []"
    unfolding filter_empty_conv using all_omit by (intro ballI) simp
  show ?thesis
    unfolding diffLocalFiles_upload diffLocalFiles_omit diffLocalFiles_overwrite omit upload overwrite
    by (simp add: new_uploadStatus_def)
qed


theorem diffLocalFiles_unchanged_witness:
  "st_upload (diffLocalFiles (drop 5) [\<lparr>filename = ''a.js'', hash = ''h1''\<rparr>, \<lparr>filename = ''b.js'', hash = ''h2''\<rparr>]
       [\<lparr>filePath = ''/out/a.js'', content = [1], fileHash = ''h1''\<rparr>,
        \<lparr>filePath = ''/out/b.js'', content = [2], fileHash = ''h2''\<rparr>]
       (new_uploadStatus\<lparr>st_remote := [\<lparr>filename = ''a.js'', hash = ''h1''\<rparr>, \<lparr>filename = ''b.js'', hash = ''h2''\<rparr>]\<rparr>)) = [] \<and>
   st_overwrite (diffLocalFiles (drop 5) [\<lparr>filename = ''a.js'', hash = ''h1''\<rparr>, \<lparr>filename = ''b.js'', hash = ''h2''\<rparr>]
       [\<lparr>filePath = ''/out/a.js'', content = [1], fileHash = ''h1''\<rparr>,
        \<lparr>filePath = ''/out/b.js'', content = [2], fileHash = ''h2''\<rparr>]
       (new_uploadStatus\<lparr>st_remote := [\<lparr>filename = ''a.js'', hash = ''h1''\<rparr>, \<lparr>filename = ''b.js'', hash = ''h2''\<rparr>]\<rparr>)) = [] \<and>
   st_omit (diffLocalFiles (drop 5) [\<lparr>filename = ''a.js'', hash = ''h1''\<rparr>, \<lparr>filename = ''b.js'', hash = ''h2''\<rparr>]
       [\<lparr>filePath = ''/out/a.js'', content = [1], fileHash = ''h1''\<rparr>,
        \<lparr>filePath = ''/out/b.js'', content = [2], fileHash = ''h2''\<rparr>]
       (new_uploadStatus\<lparr>st_remote := [\<lparr>filename = ''a.js'', hash = ''h1''\<rparr>, \<lparr>filename = ''b.js'', hash = ''h2''\<rparr>]\<rparr>)) =
     [\<lparr>filename = ''a.js'', hash = ''h1''\<rparr>, \<lparr>filename = ''b.js'', hash = ''h2''\<rparr>]"
proof -
  have same: "\<forall>f \<in> set [\<lparr>filePath = ''/out/a.js'', content = [1], fileHash = ''h1''\<rparr>,
        \<lparr>filePath = ''/out/b.js'', content = [2], fileHash = ''h2''\<rparr>].
      (\<exists>r \<in> set [\<lparr>filename = ''a.js'', hash = ''h1''\<rparr>, \<lparr>filename = ''b.js'', hash = ''h2''\<rparr>]. filename r = filename (logItem (drop 5) f)) \<and>
      (\<forall>r \<in> set [\<lparr>filename = ''a.js'', hash = ''h1''\<rparr>, \<lparr>filename = ''b.js'', hash = ''h2''\<rparr>]. filename r = filename (logItem (drop 5) f) \<longrightarrow> hash r = fileHash f)"
    by (simp add: logItem_def filePath2Uri_def)
  from diffLocalFiles_unchanged [OF same] show ?thesis
    by (simp add: logItem_def filePath2Uri_def)
qed

section \<open>Properties of initCDNStatus\<close>

lemma Array_findIndex_from_found:
  "\<exists>x \<in> set xs. test x \<Longrightarrow> 0 \<le> i \<Longrightarrow> Array_findIndex_from test xs i \<noteq> -1"
proof (induction xs arbitrary: i)
  case Nil
  then show ?case by simp
next
  case (Cons x xs)
  show ?case
  proof (cases "test x")
    case True
    with Cons.prems show ?thesis by simp
  next
    case False
    with Cons.prems have "\<exists>x \<in> set xs. test x" by simp
    from Cons.IH [OF this, of "i + 1"] Cons.prems False show ?thesis by simp
  qed
qed

text \<open>
  Whenever the listing holds the log file and the HTTP client answers 404, the
  continuation is not invoked, whereas a listing without the log file ends in
  \<^verbatim>\<open>callback()\<close>.
\<close>

lemma initCDNStatus_404:
  assumes "logFileName \<noteq> []" and "\<exists>item \<in> set files. name item = logFileName"
    and "readRemoteFile (remotePathname @ logFileName) = Inr (404, body)"
  shows "snd (initCDNStatus logFileName remotePathname (Inr files) readRemoteFile JSON_parse
            (log, st)) = NotCalled \<and>
         fst (fst (initCDNStatus logFileName remotePathname (Inr files) readRemoteFile JSON_parse
            (log, st))) = log"
proof -
  from assms(1, 2) have "\<exists>item \<in> set files. logFileName \<noteq> [] \<and> name item = logFileName"
    by simp
  from Array_findIndex_from_found [OF this, of 0]
  have "Array_findIndex (\<lambda>item. logFileName \<noteq> [] \<and> name item = logFileName) files \<noteq> -1"
    by (simp add: Array_findIndex_def)
  with assms(3) show ?thesis by (simp add: initCDNStatus_def Let_def)
qed

lemma initCDNStatus_no_log_file:
  assumes "\<forall>item \<in> set files. name item \<noteq> logFileName"
  shows "snd (initCDNStatus logFileName remotePathname (Inr files) readRemoteFile JSON_parse
            (log, st)) = Called None"
proof -
  have "Array_findIndex_from (\<lambda>item. logFileName \<noteq> [] \<and> name item = logFileName) files i = -1"
    for i using assms by (induction files arbitrary: i) simp_all
  then show ?thesis by (simp add: initCDNStatus_def Array_findIndex_def Let_def)
qed

text \<open>
  C6. The claim is that a 404 for the log file lets the initialization phase complete,
  its continuation being invoked without an error. The code only prints a warning in
  that branch: with the log file in the listing and a 404 from the HTTP client,
  \<^verbatim>\<open>initCDNStatus\<close> keeps the (empty) log, records the remote files, and never invokes
  the continuation, so the handler starts no further phase.
\<close>

theorem initCDNStatus_404_never_calls_back:
  "initCDNStatus ''upload-log.json'' ''http://cdn.example.com/''
     (Inr [\<lparr>name = ''a.js'', file_hash = ''h1''\<rparr>,
           \<lparr>name = ''upload-log.json'', file_hash = ''h0''\<rparr>])
     (\<lambda>url. Inr (404, ''Not Found'')) (\<lambda>body. None) ([], new_uploadStatus) =
   (([], new_uploadStatus\<lparr>st_remote := [\<lparr>filename = ''a.js'', hash = ''h1''\<rparr>]\<rparr>), NotCalled)"
  by (simp add: initCDNStatus_def Array_findIndex_def Array_splice1_def Let_def)

section \<open>Aliasing: the log on the heap\<close>

lemma arrays_kept_nth: "arrays_kept h h' \<Longrightarrow> allocated h a \<Longrightarrow> h' ! a = h ! a"
proof -
  assume kept: "arrays_kept h h'" and a: "allocated h a"
  then have "take (length h) h' ! a = h' ! a" by (simp add: allocated_def)
  with kept show ?thesis by (simp add: arrays_kept_def)
qed

lemma arrays_kept_alloc: "arrays_kept h (fst (heap_alloc h xs))"
  by (simp add: arrays_kept_def heap_alloc_def)

lemma arrays_kept_update_new: "arrays_kept h h' \<Longrightarrow> \<not> allocated h r \<Longrightarrow> arrays_kept h (h'[r := xs])"
  by (simp add: arrays_kept_def allocated_def take_update_cancel)

lemma VersionLog_init_frame:
  assumes "allocated h c"
  shows "case VersionLog_init (h, this) c of
           (h', this') \<Rightarrow>
             arrays_kept h h' \<and> h' ! c = h ! c \<and>
             \<not> allocated h (record_ref this') \<and> allocated h' (record_ref this') \<and>
             h' ! record_ref this' = init (h ! c)"
  using assms
  by (simp add: VersionLog_init_def heap_alloc_def allocated_def arrays_kept_def init_def
      nth_append)

lemma VersionLog_slice_frame:
  assumes "allocated h (record_ref this)"
  shows "case VersionLog_getVersions (h, this) startIndex endIndex of
           ((h', this'), r) \<Rightarrow>
             this' = this \<and> arrays_kept h h' \<and> h' ! record_ref this = h ! record_ref this \<and>
             \<not> allocated h r \<and> allocated h' r \<and>
             h' ! r = getVersions (h ! record_ref this) startIndex endIndex \<and>
             (\<forall>xs. arrays_kept h (h'[r := xs]))"
    and "case VersionLog_getFreshVersions (h, this) maxiumVersion deadline of
           ((h', this'), r) \<Rightarrow>
             this' = this \<and> arrays_kept h h' \<and> h' ! record_ref this = h ! record_ref this \<and>
             \<not> allocated h r \<and> allocated h' r \<and>
             h' ! r = getFreshVersions (h ! record_ref this) maxiumVersion deadline \<and>
             (\<forall>xs. arrays_kept h (h'[r := xs]))"
  using assms
  by (simp_all add: VersionLog_getVersions_def VersionLog_getFreshVersions_def
      VersionLog_getFirstExpireVersionIndex_def heap_alloc_def allocated_def arrays_kept_def
      getVersions_def getFreshVersions_def nth_append Let_def)


lemma VersionLog_append_after_init:
  assumes "allocated h c"
  shows "fst (VersionLog_append (VersionLog_init (h, this) c) entry) ! c = h ! c"
  using assms
  by (simp add: VersionLog_append_def VersionLog_init_def heap_alloc_def allocated_def
      nth_append)

text \<open>
  C10. On a heap where the log's array and the argument array are allocated:
  \<^verbatim>\<open>init\<close> changes no array that existed before, the caller's included, and stores the
  sorted copy in a new array, so that a later \<^verbatim>\<open>append\<close> to the log leaves the caller's
  array as it was; \<^verbatim>\<open>findVersion\<close>, \<^verbatim>\<open>getLastVersion\<close> and
  \<^verbatim>\<open>getFirstExpireVersionIndex\<close> leave heap and object unchanged;
  \<^verbatim>\<open>getFreshVersions\<close> and \<^verbatim>\<open>getVersions\<close> leave the object and every existing array
  unchanged and return a newly allocated array holding the slice, so that no update of
  the returned array changes the log.
\<close>

theorem VersionLog_no_aliasing:
  assumes "allocated h (record_ref this)" and "allocated h c"
  shows "(case VersionLog_init (h, this) c of
            (h', this') \<Rightarrow>
              arrays_kept h h' \<and> h' ! c = h ! c \<and>
              \<not> allocated h (record_ref this') \<and> allocated h' (record_ref this') \<and>
              h' ! record_ref this' = init (h ! c)) \<and>
         fst (VersionLog_append (VersionLog_init (h, this) c) entry) ! c = h ! c \<and>
         fst (VersionLog_findVersion (h, this) fname hs startIndex) = (h, this) \<and>
         fst (VersionLog_getLastVersion (h, this)) = (h, this) \<and>
         fst (VersionLog_getFirstExpireVersionIndex (h, this) maxiumVersion deadline) = (h, this) \<and>
         (case VersionLog_getFreshVersions (h, this) maxiumVersion deadline of
            ((h', this'), r) \<Rightarrow>
              this' = this \<and> arrays_kept h h' \<and> h' ! record_ref this = h ! record_ref this \<and>
              \<not> allocated h r \<and> allocated h' r \<and>
              h' ! r = getFreshVersions (h ! record_ref this) maxiumVersion deadline \<and>
              (\<forall>xs. arrays_kept h (h'[r := xs]))) \<and>
         (case VersionLog_getVersions (h, this) startSlice endSlice of
            ((h', this'), r) \<Rightarrow>
              this' = this \<and> arrays_kept h h' \<and> h' ! record_ref this = h ! record_ref this \<and>
              \<not> allocated h r \<and> allocated h' r \<and>
              h' ! r = getVersions (h ! record_ref this) startSlice endSlice \<and>
              (\<forall>xs. arrays_kept h (h'[r := xs])))"
proof (intro conjI)
  show "case VersionLog_init (h, this) c of
            (h', this') \<Rightarrow>
              arrays_kept h h' \<and> h' ! c = h ! c \<and>
              \<not> allocated h (record_ref this') \<and> allocated h' (record_ref this') \<and>
              h' ! record_ref this' = init (h ! c)"
    using assms(2) by (rule VersionLog_init_frame)
  show "fst (VersionLog_append (VersionLog_init (h, this) c) entry) ! c = h ! c"
    using assms(2) by (rule VersionLog_append_after_init)
  show "fst (VersionLog_findVersion (h, this) fname hs startIndex) = (h, this)"
    by (simp add: VersionLog_findVersion_def)
  show "fst (VersionLog_getLastVersion (h, this)) = (h, this)"
    by (simp add: VersionLog_getLastVersion_def)
  show "fst (VersionLog_getFirstExpireVersionIndex (h, this) maxiumVersion deadline) = (h, this)"
    by (simp add: VersionLog_getFirstExpireVersionIndex_def)
  show "case VersionLog_getFreshVersions (h, this) maxiumVersion deadline of
            ((h', this'), r) \<Rightarrow>
              this' = this \<and> arrays_kept h h' \<and> h' ! record_ref this = h ! record_ref this \<and>
              \<not> allocated h r \<and> allocated h' r \<and>
              h' ! r = getFreshVersions (h ! record_ref this) maxiumVersion deadline \<and>
              (\<forall>xs. arrays_kept h (h'[r := xs]))"
    using assms(1) by (rule VersionLog_slice_frame(2))
  show "case VersionLog_getVersions (h, this) startSlice endSlice of
            ((h', this'), r) \<Rightarrow>
              this' = this \<and> arrays_kept h h' \<and> h' ! record_ref this = h ! record_ref this \<and>
              \<not> allocated h r \<and> allocated h' r \<and>
              h' ! r = getVersions (h ! record_ref this) startSlice endSlice \<and>
              (\<forall>xs. arrays_kept h (h'[r := xs]))"
    using assms(1) by (rule VersionLog_slice_frame(1))
qed

theorem VersionLog_no_aliasing_witness:
  "VersionLog_init ([[], [\<lparr>timestamp = 5, upload = [], omit = []\<rparr>, \<lparr>timestamp = 20, upload = [], omit = []\<rparr>]], \<lparr>record_ref = 0\<rparr>) 1 =
     ([[], [\<lparr>timestamp = 5, upload = [], omit = []\<rparr>, \<lparr>timestamp = 20, upload = [], omit = []\<rparr>], [\<lparr>timestamp = 20, upload = [], omit = []\<rparr>, \<lparr>timestamp = 5, upload = [], omit = []\<rparr>]], \<lparr>record_ref = 2\<rparr>) \<and>
   fst (VersionLog_append (VersionLog_init ([[], [\<lparr>timestamp = 5, upload = [], omit = []\<rparr>, \<lparr>timestamp = 20, upload = [], omit = []\<rparr>]], \<lparr>record_ref = 0\<rparr>) 1) \<lparr>timestamp = 30, upload = [], omit = []\<rparr>) =
     [[], [\<lparr>timestamp = 5, upload = [], omit = []\<rparr>, \<lparr>timestamp = 20, upload = [], omit = []\<rparr>], [\<lparr>timestamp = 30, upload = [], omit = []\<rparr>, \<lparr>timestamp = 20, upload = [], omit = []\<rparr>, \<lparr>timestamp = 5, upload = [], omit = []\<rparr>]] \<and>
   VersionLog_getVersions ([[], [\<lparr>timestamp = 5, upload = [], omit = []\<rparr>, \<lparr>timestamp = 20, upload = [], omit = []\<rparr>]], \<lparr>record_ref = 1\<rparr>) (Some 1) None =
     (([[], [\<lparr>timestamp = 5, upload = [], omit = []\<rparr>, \<lparr>timestamp = 20, upload = [], omit = []\<rparr>], [\<lparr>timestamp = 20, upload = [], omit = []\<rparr>]], \<lparr>record_ref = 1\<rparr>), 2)"
proof -
  have a: "allocated [[], [\<lparr>timestamp = 5, upload = [], omit = []\<rparr>, \<lparr>timestamp = 20, upload = [], omit = []\<rparr>]] (record_ref \<lparr>record_ref = 0\<rparr>)"
    and b: "allocated [[], [\<lparr>timestamp = 5, upload = [], omit = []\<rparr>, \<lparr>timestamp = 20, upload = [], omit = []\<rparr>]] 1"
    by (simp_all add: allocated_def)
  have run: "VersionLog_init ([[], [\<lparr>timestamp = 5, upload = [], omit = []\<rparr>, \<lparr>timestamp = 20, upload = [], omit = []\<rparr>]], \<lparr>record_ref = 0\<rparr>) 1 =
     ([[], [\<lparr>timestamp = 5, upload = [], omit = []\<rparr>, \<lparr>timestamp = 20, upload = [], omit = []\<rparr>], [\<lparr>timestamp = 20, upload = [], omit = []\<rparr>, \<lparr>timestamp = 5, upload = [], omit = []\<rparr>]], \<lparr>record_ref = 2\<rparr>)"
    by (simp add: VersionLog_init_def heap_alloc_def Array_slice_def Array_sort_def
        init_compare_def)
  from VersionLog_no_aliasing [OF a b, where entry = "\<lparr>timestamp = 30, upload = [], omit = []\<rparr>", THEN conjunct2, THEN conjunct1]
  have "fst (VersionLog_append (VersionLog_init ([[], [\<lparr>timestamp = 5, upload = [], omit = []\<rparr>, \<lparr>timestamp = 20, upload = [], omit = []\<rparr>]], \<lparr>record_ref = 0\<rparr>) 1) \<lparr>timestamp = 30, upload = [], omit = []\<rparr>) ! 1 =
      [[], [\<lparr>timestamp = 5, upload = [], omit = []\<rparr>, \<lparr>timestamp = 20, upload = [], omit = []\<rparr>]] ! 1"
    .
  moreover have "fst (VersionLog_append (VersionLog_init ([[], [\<lparr>timestamp = 5, upload = [], omit = []\<rparr>, \<lparr>timestamp = 20, upload = [], omit = []\<rparr>]], \<lparr>record_ref = 0\<rparr>) 1) \<lparr>timestamp = 30, upload = [], omit = []\<rparr>) =
      [[], [\<lparr>timestamp = 5, upload = [], omit = []\<rparr>, \<lparr>timestamp = 20, upload = [], omit = []\<rparr>], [\<lparr>timestamp = 30, upload = [], omit = []\<rparr>, \<lparr>timestamp = 20, upload = [], omit = []\<rparr>, \<lparr>timestamp = 5, upload = [], omit = []\<rparr>]]"
    unfolding run by (simp add: VersionLog_append_def)
  moreover have "VersionLog_getVersions ([[], [\<lparr>timestamp = 5, upload = [], omit = []\<rparr>, \<lparr>timestamp = 20, upload = [], omit = []\<rparr>]], \<lparr>record_ref = 1\<rparr>) (Some 1) None =
     (([[], [\<lparr>timestamp = 5, upload = [], omit = []\<rparr>, \<lparr>timestamp = 20, upload = [], omit = []\<rparr>], [\<lparr>timestamp = 20, upload = [], omit = []\<rparr>]], \<lparr>record_ref = 1\<rparr>), 2)"
    by (simp add: VersionLog_getVersions_def heap_alloc_def Array_slice_def)
  ultimately show ?thesis using run by simp
qed

end
